theory Spec2Isabelle
  imports Main "HOL-Library.Sublist"
begin

section \<open>Exceptions and observable effects\<close>

text \<open>
  The program is one file, \<^verbatim>\<open>src/main.js\<close>. A JavaScript exception is a value of
  \<open>error\<close>; a function that may throw returns \<open>error + 'a\<close>, with \<open>Inl\<close> the exception.
  A JavaScript string is a \<open>string\<close>: the model covers code units below 256, so the line
  terminators U+2028 and U+2029 and the white space above U+00FF, which the pattern of
  \<^verbatim>\<open>sendToLoki\<close> also knows, lie outside it.
\<close>

datatype error = SyntaxError | TypeError | ReferenceError

text \<open>
  The environment variables of lines 74 to 76, as the template literal of line 128
  renders them.
\<close>

record config =
  LOKI_USER :: string
  LOKI_PASSWORD :: string
  LOKI_ENDPOINT :: string

text \<open>
  The options object of line 127: the \<^verbatim>\<open>uri\<close>, the labels of the single stream and
  its \<^verbatim>\<open>values\<close>. The \<^verbatim>\<open>method\<close> is always POST and \<^verbatim>\<open>json\<close> always true. A
  timestamp is kept as the Number that line 141 computes; the template literal sends
  its decimal rendering.
\<close>

record loki_request =
  uri :: string
  stream :: "(string \<times> string) list"
  "values" :: "(nat \<times> string) list"

text \<open>
  What the program does to the outside world and to its one variable \<^verbatim>\<open>lastUpdated\<close>,
  in the order in which it does it.
\<close>

datatype effect =
    GetObject string string
  | Post loki_request
  | Log string
  | SetLastUpdated int
  | SendStatus nat
  | Listen string

section \<open>The pattern of line 103\<close>

text \<open>
  The regular expression is a sequence of pieces. Each piece is one character class
  with a quantifier, and is a named capture group or not: \<^verbatim>\<open>(?<type>.*?)\<close> is
  \<open>Piece AnyChar LazyStar (Some ''type'')\<close>, \<^verbatim>\<open>\s+\<close> is \<open>Piece Space GreedyPlus None\<close>.
\<close>

datatype atom = AnyChar | Space | Digit | Lit char

datatype quant = Once | LazyStar | GreedyStar | GreedyPlus

datatype piece = Piece atom quant "string option"

fun accepts :: "atom \<Rightarrow> char \<Rightarrow> bool" where
  "accepts AnyChar c = (of_char c \<notin> set [10, 13 :: nat])"
| "accepts Space c = (of_char c \<in> set [9, 10, 11, 12, 13, 32, 160 :: nat])"
| "accepts Digit c = (48 \<le> (of_char c :: nat) \<and> (of_char c :: nat) \<le> 57)"
| "accepts (Lit d) c = (c = d)"

text \<open>
  A match is the number of characters matched and the captures in the order of their
  groups. \<open>opened g m\<close> is the match \<open>m\<close> of the rest of the pattern seen from a piece
  that has taken no character yet; \<open>took c g m\<close> adds the character \<open>c\<close> in front.
\<close>

fun opened :: "string option \<Rightarrow> nat \<times> string list \<Rightarrow> nat \<times> string list" where
  "opened None (n, gs) = (n, gs)"
| "opened (Some name) (n, gs) = (n, [] # gs)"

fun took :: "char \<Rightarrow> string option \<Rightarrow> nat \<times> string list \<Rightarrow> nat \<times> string list" where
  "took c None (n, gs) = (Suc n, gs)"
| "took c (Some name) (n, []) = (Suc n, [])"
| "took c (Some name) (n, g # gs) = (Suc n, (c # g) # gs)"

text \<open>
  The backtracking matcher at the front of \<open>s\<close>. A lazy star first tries the rest of
  the pattern and takes one more character only when that fails; a greedy star first
  takes one more character and tries the rest of the pattern only when that fails;
  \<^verbatim>\<open>x+\<close> is \<^verbatim>\<open>x\<close> followed by \<^verbatim>\<open>x*\<close>.
\<close>

fun matchPieces :: "piece list \<Rightarrow> string \<Rightarrow> (nat \<times> string list) option" where
  "matchPieces [] s = Some (0, [])"
| "matchPieces (Piece a Once g # ps) [] = None"
| "matchPieces (Piece a Once g # ps) (c # cs) =
     (if accepts a c then
        (case matchPieces ps cs of None \<Rightarrow> None | Some m \<Rightarrow> Some (took c g (opened g m)))
      else None)"
| "matchPieces (Piece a LazyStar g # ps) [] =
     (case matchPieces ps [] of None \<Rightarrow> None | Some m \<Rightarrow> Some (opened g m))"
| "matchPieces (Piece a LazyStar g # ps) (c # cs) =
     (case matchPieces ps (c # cs) of
        Some m \<Rightarrow> Some (opened g m)
      | None \<Rightarrow>
          if accepts a c then
            (case matchPieces (Piece a LazyStar g # ps) cs of
               None \<Rightarrow> None
             | Some m \<Rightarrow> Some (took c g m))
          else None)"
| "matchPieces (Piece a GreedyStar g # ps) [] =
     (case matchPieces ps [] of None \<Rightarrow> None | Some m \<Rightarrow> Some (opened g m))"
| "matchPieces (Piece a GreedyStar g # ps) (c # cs) =
     (case (if accepts a c then matchPieces (Piece a GreedyStar g # ps) cs else None) of
        Some m \<Rightarrow> Some (took c g m)
      | None \<Rightarrow>
          (case matchPieces ps (c # cs) of None \<Rightarrow> None | Some m \<Rightarrow> Some (opened g m)))"
| "matchPieces (Piece a GreedyPlus g # ps) [] = None"
| "matchPieces (Piece a GreedyPlus g # ps) (c # cs) =
     (if accepts a c then
        (case matchPieces (Piece a GreedyStar g # ps) cs of
           None \<Rightarrow> None
         | Some m \<Rightarrow> Some (took c g m))
      else None)"

definition grp :: "string \<Rightarrow> piece" where
  "grp name = Piece AnyChar LazyStar (Some name)"

definition ws :: piece where
  "ws = Piece Space GreedyPlus None"

definition quo :: piece where
  "quo = Piece (Lit (CHR 0x22)) Once None"

definition dash :: piece where
  "dash = Piece (Lit (CHR ''-'')) Once None"

definition skip :: piece where
  "skip = Piece AnyChar LazyStar None"

definition re :: "piece list" where
  "re =
   [grp ''type'', ws, grp ''time'', ws, grp ''elb'', ws, grp ''client'', ws,
    grp ''target'', ws, grp ''req_proc_time'', ws, grp ''target_proc_time'', ws,
    grp ''resp_proc_time'', ws, grp ''elb_status'', ws, grp ''target_status'', ws,
    grp ''recv_bytes'', ws, grp ''sent_bytes'', ws,
    quo, grp ''request'', quo, ws,
    quo, grp ''user_agent'', quo, ws,
    dash, ws, dash, ws,
    grp ''target_group_arn'', ws,
    quo, grp ''trace_id'', quo, ws,
    skip, Piece Digit GreedyPlus (Some ''match_priority''), ws,
    grp ''req_creation_time'', ws,
    quo, grp ''action_executed'', quo, ws,
    skip, quo, dash, quo, ws,
    quo, dash, quo, ws,
    quo, grp ''target_list'', quo, ws,
    quo, grp ''status_code'', quo, ws]"

text \<open>
  \<^verbatim>\<open>line.match(re)\<close>: the pattern starts with \<^verbatim>\<open>^\<close> and has no flag, so it can match
  at the start of the line only. The result is \<^verbatim>\<open>null\<close> (\<open>None\<close>) or the array whose
  element 0 is the matched text and whose elements 1, 2, ... are the captures.
\<close>

definition line_match :: "string \<Rightarrow> string list option" where
  "line_match line =
     (case matchPieces re line of
        None \<Rightarrow> None
      | Some (n, gs) \<Rightarrow> Some (take n line # gs))"

section \<open>The record of a line and its serialization\<close>

definition field_keys :: "string list" where
  "field_keys =
   [''type'', ''time'', ''elb'', ''client'', ''target'', ''req_proc_time'',
    ''target_proc_time'', ''resp_proc_time'', ''elb_status'', ''target_status'',
    ''recv_bytes'', ''sent_bytes'', ''request'', ''user_agent'', ''target_group_arn'',
    ''trace_id'', ''match_priority'', ''req_creation_time'', ''action_executed'',
    ''target_list'', ''status_code'']"

text \<open>Reading an array element; out of range the value is \<^verbatim>\<open>undefined\<close> (\<open>None\<close>).\<close>

definition element :: "'a list \<Rightarrow> nat \<Rightarrow> 'a option" where
  "element xs i = (if i < length xs then Some (xs ! i) else None)"

text \<open>
  The \<^verbatim>\<open>forEach\<close> of lines 111 to 115: \<^verbatim>\<open>jsonLogObj[key] = groups[keyIndex++]\<close>.
  Reading an element of \<^verbatim>\<open>null\<close> throws a TypeError. The object is the list of its
  properties in insertion order.
\<close>

fun assign_keys ::
  "string list option \<Rightarrow> nat \<Rightarrow> string list \<Rightarrow> error + (string \<times> string option) list" where
  "assign_keys groups keyIndex [] = Inr []"
| "assign_keys groups keyIndex (key # rest) =
     (case groups of
        None \<Rightarrow> Inl TypeError
      | Some g \<Rightarrow>
          (case assign_keys groups (Suc keyIndex) rest of
             Inl e \<Rightarrow> Inl e
           | Inr obj \<Rightarrow> Inr ((key, element g keyIndex) # obj)))"

definition jsonLogObj :: "string \<Rightarrow> error + (string \<times> string option) list" where
  "jsonLogObj line = assign_keys (line_match line) 1 field_keys"

text \<open>
  \<^verbatim>\<open>JSON.stringify\<close> of an object whose properties are strings or \<^verbatim>\<open>undefined\<close>: a
  property that is \<^verbatim>\<open>undefined\<close> is left out, a string is quoted with the escapes of
  the language's QuoteJSONString.
\<close>

definition hex_digit :: "nat \<Rightarrow> char" where
  "hex_digit n = ''0123456789abcdef'' ! n"

definition escape :: "char \<Rightarrow> string" where
  "escape c =
     (let n = (of_char c :: nat) in
      if n = 8 then [CHR 0x5C, CHR ''b'']
      else if n = 9 then [CHR 0x5C, CHR ''t'']
      else if n = 10 then [CHR 0x5C, CHR ''n'']
      else if n = 12 then [CHR 0x5C, CHR ''f'']
      else if n = 13 then [CHR 0x5C, CHR ''r'']
      else if n = 34 then [CHR 0x5C, CHR 0x22]
      else if n = 92 then [CHR 0x5C, CHR 0x5C]
      else if n < 32 then
        [CHR 0x5C, CHR ''u'', CHR ''0'', CHR ''0'', hex_digit (n div 16), hex_digit (n mod 16)]
      else [c])"

definition quote :: "string \<Rightarrow> string" where
  "quote s = CHR 0x22 # concat (map escape s) @ [CHR 0x22]"

fun members :: "(string \<times> string option) list \<Rightarrow> string list" where
  "members [] = []"
| "members ((k, None) # obj) = members obj"
| "members ((k, Some v) # obj) = (quote k @ '':'' @ quote v) # members obj"

fun join :: "string \<Rightarrow> string list \<Rightarrow> string" where
  "join sep [] = []"
| "join sep [x] = x"
| "join sep (x # y # ys) = x @ sep @ join sep (y # ys)"

definition stringify :: "(string \<times> string option) list \<Rightarrow> string" where
  "stringify obj = ''{'' @ join '','' (members obj) @ ''}''"

section \<open>sendToLoki\<close>

text \<open>\<^verbatim>\<open>logData.split('\n')\<close>: the pieces between the newlines, always at least one.\<close>

fun split_nl :: "string \<Rightarrow> string list" where
  "split_nl [] = [[]]"
| "split_nl (c # cs) =
     (if c = CHR 0x0A then [] # split_nl cs
      else (case split_nl cs of [] \<Rightarrow> [[c]] | p # ps \<Rightarrow> (c # p) # ps))"

text \<open>Lines 101 and 102: split, then \<^verbatim>\<open>pop()\<close> removes the last element.\<close>

definition logArray :: "string \<Rightarrow> string list" where
  "logArray logData = butlast (split_nl logData)"

text \<open>
  The product \<^verbatim>\<open>Date.now() * 1000000\<close> of two Numbers is the double nearest to the
  exact product, a tie going to the even significand. \<open>toNumber n\<close> is that double for
  a natural number \<open>n\<close> below \<open>2 ^ 1024\<close>: numbers of at most 53 bits are exact, a longer
  one keeps its 53 leading bits, rounded.
\<close>

fun bits :: "nat \<Rightarrow> nat" where
  "bits n = (if n = 0 then 0 else Suc (bits (n div 2)))"

declare bits.simps [simp del]

definition round_half_even :: "nat \<Rightarrow> nat \<Rightarrow> nat" where
  "round_half_even e n =
     (let q = n div 2 ^ e; r = n mod 2 ^ e; h = 2 ^ (e - 1)
      in if r < h \<or> (r = h \<and> even q) then q * 2 ^ e else (q + 1) * 2 ^ e)"

definition toNumber :: "nat \<Rightarrow> nat" where
  "toNumber n = (if n < 2 ^ 53 then n else round_half_even (bits n - 53) n)"

text \<open>
  The request of lines 126 to 147 for one serialized line, \<open>now\<close> being what
  \<^verbatim>\<open>Date.now()\<close> returns when the body is built.
\<close>

definition loki_post :: "config \<Rightarrow> nat \<Rightarrow> string \<Rightarrow> loki_request" where
  "loki_post cfg now jsonLogLine =
     \<lparr> uri = ''https://'' @ LOKI_USER cfg @ '':'' @ LOKI_PASSWORD cfg @ ''@'' @ LOKI_ENDPOINT cfg,
       stream = [(''job'', ''alb-logger-1''), (''level'', ''INFO'')],
       values = [(toNumber (now * 1000000), jsonLogLine)] \<rparr>"

text \<open>
  The loop of lines 104 to 151 from index \<open>index\<close> on. The world enters as two
  functions of the loop index: \<open>clock index\<close> is the reading of \<^verbatim>\<open>Date.now()\<close> in that
  iteration, and \<open>rejected index\<close> is \<open>Some err\<close> when the request of that iteration is
  rejected, \<open>err\<close> being the rendering of the error. A rejected request is caught and
  logged (lines 148 to 150); the TypeError of a line that does not match is not
  caught and ends the loop.
\<close>

fun sendLines ::
  "config \<Rightarrow> (nat \<Rightarrow> nat) \<Rightarrow> (nat \<Rightarrow> string option) \<Rightarrow> nat \<Rightarrow> string list
     \<Rightarrow> (error + unit) \<times> effect list" where
  "sendLines cfg clock rejected index [] = (Inr (), [])"
| "sendLines cfg clock rejected index (line # rest) =
     (case jsonLogObj line of
        Inl e \<Rightarrow> (Inl e, [])
      | Inr obj \<Rightarrow>
          (let jsonLogLine = stringify obj;
               sent = Post (loki_post cfg (clock index) jsonLogLine)
                 # (case rejected index of
                      None \<Rightarrow> []
                    | Some err \<Rightarrow> [Log (''Logging error: '' @ err)]);
               (result, later) = sendLines cfg clock rejected (Suc index) rest
           in (result, sent @ later)))"

definition sendToLoki ::
  "config \<Rightarrow> (nat \<Rightarrow> nat) \<Rightarrow> (nat \<Rightarrow> string option) \<Rightarrow> string
     \<Rightarrow> (error + unit) \<times> effect list" where
  "sendToLoki cfg clock rejected logData = sendLines cfg clock rejected 0 (logArray logData)"

section \<open>The notification handler\<close>

text \<open>
  One element of \<^verbatim>\<open>snsMessage.Records\<close>. \<open>eventTime\<close> is what
  \<^verbatim>\<open>new Date(record.eventTime).getTime()\<close> returns, in milliseconds, \<open>None\<close> being the
  NaN of a date that does not parse. \<open>s3\<close> holds \<^verbatim>\<open>s3.bucket.name\<close> and
  \<^verbatim>\<open>s3.object.key\<close>, and is \<open>None\<close> when \<^verbatim>\<open>record.s3\<close>, \<^verbatim>\<open>s3.bucket\<close> or
  \<^verbatim>\<open>s3.object\<close> is missing, so that reading through it throws a TypeError.
\<close>

record s3_event =
  eventName :: string
  eventTime :: "int option"
  s3 :: "(string \<times> string) option"

text \<open>
  The parsed \<^verbatim>\<open>Message\<close>. Line 171 reads \<^verbatim>\<open>snsMessage.bucket.name\<close> and
  \<^verbatim>\<open>snsMessage.object.Key\<close>: \<open>bucket\<close> and \<open>object\<close> are the renderings of these two
  values, \<open>None\<close> when \<^verbatim>\<open>snsMessage.bucket\<close> (or \<^verbatim>\<open>snsMessage.object\<close>) does not
  exist. A notification of the storage service has \<^verbatim>\<open>Records\<close> only.
\<close>

record sns_message =
  Records :: "s3_event list"
  bucket :: "string option"
  object :: "string option"

text \<open>
  The request body as the two calls of \<^verbatim>\<open>JSON.parse\<close> (lines 156 and 157) see it:
  \<open>BadBody\<close> when the first call throws, \<open>Body BadMessage\<close> when the second does.
\<close>

datatype message_text = BadMessage | Message sns_message

datatype req_body = BadBody | Body message_text

text \<open>
  The world of one callback: \<open>getObject b k\<close> is \<open>Inr\<close> the text of the object
  (fetched, gunzipped, \<^verbatim>\<open>toString()\<close>) or \<open>Inl\<close> the rendering of the error that the
  storage client or \<^verbatim>\<open>ungzip\<close> rejects with; \<open>clock\<close> and \<open>rejected\<close> are those of
  \<open>sendLines\<close>.
\<close>

record world =
  getObject :: "string \<Rightarrow> string \<Rightarrow> string + string"
  clock :: "nat \<Rightarrow> nat"
  rejected :: "nat \<Rightarrow> string option"

text \<open>
  \<^verbatim>\<open>fetchLogObject\<close> (lines 80 to 97): the request to the storage is issued at once;
  any failure is caught, logged, and turned into \<^verbatim>\<open>null\<close> (\<open>None\<close>).
\<close>

definition fetchLogObject :: "world \<Rightarrow> string \<Rightarrow> string \<Rightarrow> string option \<times> effect list" where
  "fetchLogObject w b k =
     (case getObject w b k of
        Inl err \<Rightarrow> (None, [GetObject b k, Log err])
      | Inr data \<Rightarrow> (Some data, [GetObject b k]))"

text \<open>
  Lines 171 and 176, the branch of a record of time \<open>t\<close> for which no log data came:
  the message of line 171 reads through \<^verbatim>\<open>snsMessage.bucket\<close> and
  \<^verbatim>\<open>snsMessage.object\<close>, which throws a TypeError when one of them does not exist.
\<close>

definition no_log_data :: "sns_message \<Rightarrow> int \<Rightarrow> (error + unit) \<times> effect list" where
  "no_log_data snsMessage t =
     (case bucket snsMessage of
        None \<Rightarrow> (Inl TypeError, [])
      | Some name \<Rightarrow>
          (case object snsMessage of
             None \<Rightarrow> (Inl TypeError, [])
           | Some key \<Rightarrow>
               (Inr (),
                [Log (''Couldn't get log data for '' @ name @ ''/'' @ key), SetLastUpdated t])))"

text \<open>
  Lines 170 to 176, after \<^verbatim>\<open>fetchLogObject\<close> has settled for a record of time \<open>t\<close>.
  \<^verbatim>\<open>!logData\<close> holds for \<^verbatim>\<open>null\<close> and for the empty string. An exception of
  \<^verbatim>\<open>sendToLoki\<close> leaves the callback before line 176.
\<close>

definition after_fetch ::
  "config \<Rightarrow> world \<Rightarrow> sns_message \<Rightarrow> int \<Rightarrow> string option \<Rightarrow> (error + unit) \<times> effect list" where
  "after_fetch cfg w snsMessage t logData =
     (case logData of
        None \<Rightarrow> no_log_data snsMessage t
      | Some text \<Rightarrow>
          if text = [] then no_log_data snsMessage t
          else
            (case sendToLoki cfg (clock w) (rejected w) text of
               (Inl e, sent) \<Rightarrow> (Inl e, sent)
             | (Inr u, sent) \<Rightarrow> (Inr (), sent @ [SetLastUpdated t])))"

text \<open>
  The callback of lines 160 to 178 for one record, run to its end, \<open>lastUpdated\<close> being
  the value of the variable when the callback starts. \<^verbatim>\<open>NaN > x\<close> is false.
\<close>

definition callback ::
  "config \<Rightarrow> world \<Rightarrow> sns_message \<Rightarrow> int \<Rightarrow> s3_event \<Rightarrow> (error + unit) \<times> effect list" where
  "callback cfg w snsMessage lastUpdated record =
     (case eventTime record of
        None \<Rightarrow> (Inr (), [])
      | Some t \<Rightarrow>
          if t > lastUpdated then
            if eventName record = ''ObjectCreated:Put'' then
              (case s3 record of
                 None \<Rightarrow> (Inl TypeError, [])
               | Some (b, k) \<Rightarrow>
                   (case fetchLogObject w b k of
                      (logData, fetching) \<Rightarrow>
                        (case after_fetch cfg w snsMessage t logData of
                           (result, later) \<Rightarrow> (result, fetching @ later))))
            else (Inr (), [SetLastUpdated t])
          else (Inr (), []))"

text \<open>The value of \<^verbatim>\<open>lastUpdated\<close> after a run of effects.\<close>

fun lastUpdated_after :: "int \<Rightarrow> effect list \<Rightarrow> int" where
  "lastUpdated_after lastUpdated [] = lastUpdated"
| "lastUpdated_after lastUpdated (SetLastUpdated t # es) = lastUpdated_after t es"
| "lastUpdated_after lastUpdated (e # es) = lastUpdated_after lastUpdated es"

text \<open>
  An \<^verbatim>\<open>async\<close> function runs in its caller up to its first \<^verbatim>\<open>await\<close> and the rest
  later. The first \<^verbatim>\<open>await\<close> of the callback is that of line 165, reached through
  line 88 once the request to the storage is issued; a callback that does not get
  there runs to its end in its caller. \<open>callback_start\<close> is the part that runs inside
  \<^verbatim>\<open>forEach\<close>.
\<close>

definition callback_start :: "int \<Rightarrow> s3_event \<Rightarrow> (error + unit) \<times> effect list" where
  "callback_start lastUpdated record =
     (case eventTime record of
        None \<Rightarrow> (Inr (), [])
      | Some t \<Rightarrow>
          if t > lastUpdated then
            if eventName record = ''ObjectCreated:Put'' then
              (case s3 record of
                 None \<Rightarrow> (Inl TypeError, [])
               | Some (b, k) \<Rightarrow> (Inr (), [GetObject b k]))
            else (Inr (), [SetLastUpdated t])
          else (Inr (), []))"

text \<open>
  \<^verbatim>\<open>snsMessage.Records.forEach\<close> with an \<^verbatim>\<open>async\<close> callback: each call returns a promise
  that \<^verbatim>\<open>forEach\<close> drops, so an exception in one callback does not stop the loop.
\<close>

fun forEach_start :: "int \<Rightarrow> s3_event list \<Rightarrow> effect list" where
  "forEach_start lastUpdated [] = []"
| "forEach_start lastUpdated (record # rest) =
     (case callback_start lastUpdated record of
        (result, es) \<Rightarrow> es @ forEach_start (lastUpdated_after lastUpdated es) rest)"

text \<open>
  The handler of lines 155 to 182 up to its return: the result of the \<^verbatim>\<open>async\<close>
  function (\<open>Inl\<close>: its promise is rejected) and the effects up to there. The callbacks
  that wait for the storage go on afterwards.
\<close>

definition handler :: "int \<Rightarrow> req_body \<Rightarrow> (error + unit) \<times> effect list" where
  "handler lastUpdated req =
     (case req of
        BadBody \<Rightarrow> (Inl SyntaxError, [])
      | Body BadMessage \<Rightarrow> (Inl SyntaxError, [])
      | Body (Message snsMessage) \<Rightarrow>
          (Inr (), forEach_start lastUpdated (Records snsMessage) @ [SendStatus 200]))"

section \<open>The top level of the module\<close>

text \<open>
  Line 77 is an expression statement: the text of a URL outside any string literal
  reads as subtractions and divisions of identifiers and property reads.
\<close>

datatype expr = Ident string | Member expr string | Minus expr expr | Divide expr expr

definition line77 :: expr where
  "line77 =
     Minus (Minus (Minus (Ident ''logs'') (Ident ''prod'')) (Ident ''us''))
       (Divide
          (Divide
             (Divide
                (Divide (Member (Member (Ident ''central1'') ''grafana'') ''net'') (Ident ''loki''))
                (Ident ''api''))
             (Ident ''v1''))
          (Ident ''push''))"

text \<open>
  What evaluation depends on: the bindings in scope, the property read (a TypeError on
  \<^verbatim>\<open>undefined\<close> and \<^verbatim>\<open>null\<close>) and the two arithmetic operators.
\<close>

record 'v realm =
  scope :: "string \<Rightarrow> 'v option"
  getProp :: "'v \<Rightarrow> string \<Rightarrow> error + 'v"
  subtract :: "'v \<Rightarrow> 'v \<Rightarrow> error + 'v"
  quotient :: "'v \<Rightarrow> 'v \<Rightarrow> error + 'v"

text \<open>
  Evaluation is left to right; reading an identifier that is not bound throws a
  ReferenceError.
\<close>

fun eval :: "'v realm \<Rightarrow> expr \<Rightarrow> error + 'v" where
  "eval R (Ident x) = (case scope R x of None \<Rightarrow> Inl ReferenceError | Some v \<Rightarrow> Inr v)"
| "eval R (Member e p) = (case eval R e of Inl err \<Rightarrow> Inl err | Inr v \<Rightarrow> getProp R v p)"
| "eval R (Minus a b) =
     (case eval R a of
        Inl err \<Rightarrow> Inl err
      | Inr x \<Rightarrow> (case eval R b of Inl err \<Rightarrow> Inl err | Inr y \<Rightarrow> subtract R x y))"
| "eval R (Divide a b) =
     (case eval R a of
        Inl err \<Rightarrow> Inl err
      | Inr x \<Rightarrow> (case eval R b of Inl err \<Rightarrow> Inl err | Inr y \<Rightarrow> quotient R x y))"

text \<open>
  The statements of the module from line 77 on, those before it taken to succeed: the
  expression statement, the registration of the handler (no effect outside) and
  \<^verbatim>\<open>snsListener.listen\<close>, whose callback logs.
\<close>

definition top_level :: "'v realm \<Rightarrow> (error + unit) \<times> effect list" where
  "top_level R =
     (case eval R line77 of
        Inl err \<Rightarrow> (Inl err, [])
      | Inr v \<Rightarrow> (Inr (), [Listen ''3456'', Log ''Listening for SNS notifications'']))"

section \<open>Observations and sample inputs\<close>

text \<open>The names of the capture groups of a pattern, in the order of the groups.\<close>

fun names :: "piece list \<Rightarrow> string list" where
  "names [] = []"
| "names (Piece a q None # ps) = names ps"
| "names (Piece a q (Some name) # ps) = name # names ps"

text \<open>\<^verbatim>\<open>jsonLogLine\<close> of line 116, for a line that matches.\<close>

definition jsonLogLine :: "string \<Rightarrow> string" where
  "jsonLogLine line = (case jsonLogObj line of Inl e \<Rightarrow> [] | Inr obj \<Rightarrow> stringify obj)"

text \<open>
  The requests among some effects, and the timestamps and payloads of their
  \<^verbatim>\<open>values\<close>; the values written to \<^verbatim>\<open>lastUpdated\<close>.
\<close>

fun posts :: "effect list \<Rightarrow> loki_request list" where
  "posts [] = []"
| "posts (Post r # es) = r # posts es"
| "posts (e # es) = posts es"

definition timestamps :: "effect list \<Rightarrow> nat list" where
  "timestamps es = concat (map (\<lambda>r. map fst (values r)) (posts es))"

definition payloads :: "effect list \<Rightarrow> string list" where
  "payloads es = concat (map (\<lambda>r. map snd (values r)) (posts es))"

fun writes :: "effect list \<Rightarrow> int list" where
  "writes [] = []"
| "writes (SetLastUpdated t # es) = t # writes es"
| "writes (e # es) = writes es"

text \<open>
  Reading a JSON text back, by the grammar of JSON and without any function of the
  serialization above. \<open>unescape\<close> reads the characters of a string after its opening
  quote, up to the closing quote, and returns the string read and the text after it;
  of the escapes \<^verbatim>\<open>\uXXXX\<close> it knows those below U+0100, as the strings of this
  model are. \<open>read_object\<close> reads an object whose values are all strings and returns
  its members in order.
\<close>

fun position :: "'a \<Rightarrow> 'a list \<Rightarrow> nat option" where
  "position x [] = None"
| "position x (y # ys) =
     (if x = y then Some 0 else (case position x ys of None \<Rightarrow> None | Some i \<Rightarrow> Some (Suc i)))"

definition hex_value :: "char \<Rightarrow> nat option" where
  "hex_value c = position c ''0123456789abcdef''"

definition simple_escape :: "char \<Rightarrow> char option" where
  "simple_escape e =
     (if e = CHR 0x22 then Some (CHR 0x22)
      else if e = CHR 0x5C then Some (CHR 0x5C)
      else if e = CHR ''/'' then Some (CHR ''/'')
      else if e = CHR ''b'' then Some (CHR 0x08)
      else if e = CHR ''f'' then Some (CHR 0x0C)
      else if e = CHR ''n'' then Some (CHR 0x0A)
      else if e = CHR ''r'' then Some (CHR 0x0D)
      else if e = CHR ''t'' then Some (CHR 0x09)
      else None)"

fun unescape :: "string \<Rightarrow> (string \<times> string) option" where
  "unescape [] = None"
| "unescape (c # cs) =
     (if c = CHR 0x22 then Some ([], cs)
      else if c = CHR 0x5C then
        (case cs of
           [] \<Rightarrow> None
         | e # r \<Rightarrow>
             if e = CHR ''u'' then
               (case r of
                  a # b # h # l # r' \<Rightarrow>
                    (case hex_value h of
                       None \<Rightarrow> None
                     | Some x \<Rightarrow>
                         (case hex_value l of
                            None \<Rightarrow> None
                          | Some y \<Rightarrow>
                              if a = CHR ''0'' \<and> b = CHR ''0'' then
                                (case unescape r' of
                                   None \<Rightarrow> None
                                 | Some (s, rest) \<Rightarrow> Some (char_of (16 * x + y) # s, rest))
                              else None))
                | _ \<Rightarrow> None)
             else
               (case simple_escape e of
                  None \<Rightarrow> None
                | Some d \<Rightarrow>
                    (case unescape r of
                       None \<Rightarrow> None
                     | Some (s, rest) \<Rightarrow> Some (d # s, rest))))
      else if (of_char c :: nat) < 32 then None
      else
        (case unescape cs of
           None \<Rightarrow> None
         | Some (s, rest) \<Rightarrow> Some (c # s, rest)))"

fun read_string :: "string \<Rightarrow> (string \<times> string) option" where
  "read_string [] = None"
| "read_string (c # cs) = (if c = CHR 0x22 then unescape cs else None)"

definition read_member :: "string \<Rightarrow> ((string \<times> string) \<times> string) option" where
  "read_member s =
     (case read_string s of
        None \<Rightarrow> None
      | Some (k, r) \<Rightarrow>
          (case r of
             [] \<Rightarrow> None
           | c # r' \<Rightarrow>
               if c = CHR '':'' then
                 (case read_string r' of
                    None \<Rightarrow> None
                  | Some (v, rest) \<Rightarrow> Some ((k, v), rest))
               else None))"

text \<open>
  The members after the opening brace, up to the closing brace that ends the text.
  Each member takes at least one character, so as many steps as the text has
  characters are enough.
\<close>

fun read_members :: "nat \<Rightarrow> string \<Rightarrow> (string \<times> string) list option" where
  "read_members 0 s = None"
| "read_members (Suc n) s =
     (case read_member s of
        None \<Rightarrow> None
      | Some (kv, r) \<Rightarrow>
          (case r of
             [] \<Rightarrow> None
           | c # r' \<Rightarrow>
               if c = CHR ''}'' then (if r' = [] then Some [kv] else None)
               else if c = CHR '','' then
                 (case read_members n r' of None \<Rightarrow> None | Some kvs \<Rightarrow> Some (kv # kvs))
               else None))"

definition read_object :: "string \<Rightarrow> (string \<times> string) list option" where
  "read_object s =
     (case s of
        [] \<Rightarrow> None
      | c # r \<Rightarrow>
          if c = CHR ''{'' then (if r = ''}'' then Some [] else read_members (length r) r)
          else None)"

text \<open>A character that JSON writes as itself inside a string.\<close>

definition plain :: "char \<Rightarrow> bool" where
  "plain c = (32 \<le> (of_char c :: nat) \<and> c \<noteq> CHR 0x22 \<and> c \<noteq> CHR 0x5C)"

text \<open>A blob of newline-terminated lines.\<close>

definition blob :: "string list \<Rightarrow> string" where
  "blob ls = concat (map (\<lambda>l. l @ [CHR 0x0A]) ls)"

text \<open>The test of line 162: the record is accepted.\<close>

definition accepted :: "int \<Rightarrow> s3_event \<Rightarrow> bool" where
  "accepted lastUpdated record =
     (case eventTime record of None \<Rightarrow> False | Some t \<Rightarrow> t > lastUpdated)"

text \<open>
  Callbacks that run one after the other, each to its end before the next starts: a
  call is the world, the message and the record of one callback. \<open>all_return\<close> says
  that none of them ends in an exception, \<open>lastUpdated_seq\<close> is the variable after the
  last of them, \<open>accepted_times\<close> are the times of the records accepted on the way.
\<close>

fun all_return :: "config \<Rightarrow> int \<Rightarrow> (world \<times> sns_message \<times> s3_event) list \<Rightarrow> bool" where
  "all_return cfg lastUpdated [] = True"
| "all_return cfg lastUpdated ((w, snsMessage, record) # calls) =
     (case callback cfg w snsMessage lastUpdated record of
        (Inl e, es) \<Rightarrow> False
      | (Inr u, es) \<Rightarrow> all_return cfg (lastUpdated_after lastUpdated es) calls)"

fun lastUpdated_seq :: "config \<Rightarrow> int \<Rightarrow> (world \<times> sns_message \<times> s3_event) list \<Rightarrow> int" where
  "lastUpdated_seq cfg lastUpdated [] = lastUpdated"
| "lastUpdated_seq cfg lastUpdated ((w, snsMessage, record) # calls) =
     lastUpdated_seq cfg
       (lastUpdated_after lastUpdated (snd (callback cfg w snsMessage lastUpdated record))) calls"

fun accepted_times :: "config \<Rightarrow> int \<Rightarrow> (world \<times> sns_message \<times> s3_event) list \<Rightarrow> int list" where
  "accepted_times cfg lastUpdated [] = []"
| "accepted_times cfg lastUpdated ((w, snsMessage, record) # calls) =
     (case eventTime record of
        None \<Rightarrow> []
      | Some t \<Rightarrow> if t > lastUpdated then [t] else [])
       @ accepted_times cfg
           (lastUpdated_after lastUpdated (snd (callback cfg w snsMessage lastUpdated record)))
           calls"

text \<open>The access-log line of the end-to-end scenario.\<close>

definition example_line :: string where
  \<open>example_line = ''http 2023-01-01T00:00:00.000000Z my-elb 1.2.3.4:80 5.6.7.8:80 0.001 0.002 0.003 200 200 100 200 "GET http://x/ HTTP/1.1" "curl/7" - - arn:target "trace-1" 1 2023-01-01T00:00:00.000000Z "forward" "-" "-" "arn:tg" "200" ''\<close>

text \<open>The captures of that line, and the payload that \<^verbatim>\<open>JSON.stringify\<close> makes of its record.\<close>

definition example_values :: "string list" where
  "example_values =
     [''http'', ''2023-01-01T00:00:00.000000Z'', ''my-elb'', ''1.2.3.4:80'', ''5.6.7.8:80'',
      ''0.001'', ''0.002'', ''0.003'', ''200'', ''200'', ''100'', ''200'',
      ''GET http://x/ HTTP/1.1'', ''curl/7'', ''arn:target'', ''trace-1'', ''1'',
      ''2023-01-01T00:00:00.000000Z'', ''forward'', ''arn:tg'', ''200'']"

definition example_json :: string where
  \<open>example_json = ''{"type":"http","time":"2023-01-01T00:00:00.000000Z","elb":"my-elb","client":"1.2.3.4:80","target":"5.6.7.8:80","req_proc_time":"0.001","target_proc_time":"0.002","resp_proc_time":"0.003","elb_status":"200","target_status":"200","recv_bytes":"100","sent_bytes":"200","request":"GET http://x/ HTTP/1.1","user_agent":"curl/7","target_group_arn":"arn:target","trace_id":"trace-1","match_priority":"1","req_creation_time":"2023-01-01T00:00:00.000000Z","action_executed":"forward","target_list":"arn:tg","status_code":"200"}''\<close>

text \<open>
  A configuration, two records of the same time (one of them a creation), a later
  creation record, a notification as the storage service sends it (\<^verbatim>\<open>Records\<close> only) and two worlds: one where the
  object holds the given text, one where the storage has no such object. Times are in
  milliseconds since the epoch, as \<^verbatim>\<open>getTime()\<close> and \<^verbatim>\<open>Date.now()\<close> give them.
\<close>

definition sample_config :: config where
  "sample_config =
     \<lparr> LOKI_USER = ''user'', LOKI_PASSWORD = ''token'', LOKI_ENDPOINT = ''loki.test/push'' \<rparr>"

definition put_event :: s3_event where
  "put_event =
     \<lparr> eventName = ''ObjectCreated:Put'', eventTime = Some 1700000001000,
       s3 = Some (''alb-logs'', ''a.log.gz'') \<rparr>"

definition later_put_event :: s3_event where
  "later_put_event =
     \<lparr> eventName = ''ObjectCreated:Put'', eventTime = Some 1700000005000,
       s3 = Some (''alb-logs'', ''b.log.gz'') \<rparr>"

definition removed_event :: s3_event where
  "removed_event =
     \<lparr> eventName = ''ObjectRemoved:Delete'', eventTime = Some 1700000001000,
       s3 = Some (''alb-logs'', ''a.log.gz'') \<rparr>"

definition notification :: "s3_event list \<Rightarrow> sns_message" where
  "notification records = \<lparr> Records = records, bucket = None, object = None \<rparr>"

definition world_with :: "string \<Rightarrow> world" where
  "world_with text =
     \<lparr> getObject = (\<lambda>b k. Inr text), clock = (\<lambda>i. 1700000002000 + i),
       rejected = (\<lambda>i. None) \<rparr>"

definition world_without :: world where
  "world_without =
     \<lparr> getObject = (\<lambda>b k. Inl ''NoSuchKey''), clock = (\<lambda>i. 1700000002000 + i),
       rejected = (\<lambda>i. None) \<rparr>"

text \<open>
  The bindings of the module: those it declares (lines 59 to 76, 80 and 100), those of
  the module wrapper, and the globals it uses. Values do not matter here.
\<close>

definition module_bindings :: "string list" where
  "module_bindings =
     [''AWS'', ''Express'', ''parser'', ''request'', ''ungzip'', ''s3'', ''snsListener'',
      ''lastUpdated'', ''LOKI_USER'', ''LOKI_PASSWORD'', ''LOKI_ENDPOINT'',
      ''fetchLogObject'', ''sendToLoki'', ''exports'', ''require'', ''module'',
      ''__filename'', ''__dirname'', ''process'', ''console'', ''Date'', ''JSON'']"

definition module_realm :: "unit realm" where
  "module_realm =
     \<lparr> scope = (\<lambda>x. if x \<in> set module_bindings then Some () else None),
       getProp = (\<lambda>v p. Inr ()), subtract = (\<lambda>x y. Inr ()), quotient = (\<lambda>x y. Inr ()) \<rparr>"

section \<open>The pattern and the record\<close>

lemma names_re: "names re = field_keys"
  by (simp add: re_def field_keys_def grp_def ws_def quo_def dash_def skip_def)

lemma took_length:
  "length (snd m) = length (names (Piece a q g # ps)) \<Longrightarrow>
   length (snd (took c g m)) = length (names (Piece a q' g # ps))"
  by (cases "(c, g, m)" rule: took.cases) auto

lemma opened_length:
  "length (snd m) = length (names ps) \<Longrightarrow>
   length (snd (opened g m)) = length (names (Piece a q g # ps))"
  by (cases "(g, m)" rule: opened.cases) auto

text \<open>A match binds every group of the pattern.\<close>

lemma matchPieces_captures:
  "matchPieces ps s = Some m \<Longrightarrow> length (snd m) = length (names ps)"
proof (induction ps s arbitrary: m rule: matchPieces.induct)
  case (1 s)
  then show ?case by auto
next
  case (2 a g ps)
  then show ?case by simp
next
  case (3 a g ps c cs)
  then show ?case
    by (auto split: if_splits option.splits simp del: names.simps
        intro!: took_length opened_length)
next
  case (4 a g ps)
  then show ?case
    by (auto split: option.splits simp del: names.simps intro!: opened_length)
next
  case (5 a g ps c cs)
  then show ?case
    by (auto split: if_splits option.splits simp del: names.simps
        intro!: took_length opened_length)
next
  case (6 a g ps)
  then show ?case
    by (auto split: option.splits simp del: names.simps intro!: opened_length)
next
  case (7 a g ps c cs)
  then show ?case
    by (auto split: if_splits option.splits simp del: names.simps
        intro!: took_length opened_length)
next
  case (8 a g ps)
  then show ?case by simp
next
  case (9 a g ps c cs)
  then show ?case
    by (auto split: if_splits option.splits simp del: names.simps
        intro!: took_length opened_length)
qed

lemma line_match_length: "line_match line = Some groups \<Longrightarrow> length groups = 22"
proof -
  assume "line_match line = Some groups"
  then obtain n gs where m: "matchPieces re line = Some (n, gs)"
    and g: "groups = take n line # gs"
    by (auto simp: line_match_def split: option.splits)
  from matchPieces_captures [OF m] have "length gs = 21"
    by (simp add: names_re field_keys_def)
  with g show ?thesis by simp
qed

lemma assign_keys_Some:
  "assign_keys (Some g) i ks = Inr (zip ks (map (element g) [i ..< i + length ks]))"
proof (induction ks arbitrary: i)
  case Nil
  then show ?case by simp
next
  case (Cons k ks)
  have "[i ..< i + length (k # ks)] = i # [Suc i ..< Suc i + length ks]"
    by (simp add: upt_rec)
  then show ?case using Cons.IH [of "Suc i"] by simp
qed

lemma elements_tl: "map (element g) [Suc 0 ..< length g] = map Some (tl g)"
  by (rule nth_equalityI) (auto simp: element_def nth_tl)

lemma jsonLogObj_match:
  assumes "line_match line = Some groups"
  shows "jsonLogObj line = Inr (zip field_keys (map Some (tl groups)))"
proof -
  have "Suc 0 + length field_keys = length groups"
    using line_match_length [OF assms] by (simp add: field_keys_def)
  then have "assign_keys (Some groups) (Suc 0) field_keys
      = Inr (zip field_keys (map (element groups) [Suc 0 ..< length groups]))"
    by (simp only: assign_keys_Some)
  then show ?thesis
    by (simp add: jsonLogObj_def assms elements_tl)
qed

lemma jsonLogObj_null: "line_match line = None \<Longrightarrow> jsonLogObj line = Inl TypeError"
  by (simp add: jsonLogObj_def field_keys_def)

lemma example_line_match:
  \<open>line_match example_line = Some
    [''http 2023-01-01T00:00:00.000000Z my-elb 1.2.3.4:80 5.6.7.8:80 0.001 0.002 0.003 200 200 100 200 "GET http://x/ HTTP/1.1" "curl/7" - - arn:target "trace-1" 1 2023-01-01T00:00:00.000000Z "forward" "-" "-" "arn:tg" "200" '',
     ''http'', ''2023-01-01T00:00:00.000000Z'', ''my-elb'', ''1.2.3.4:80'', ''5.6.7.8:80'',
     ''0.001'', ''0.002'', ''0.003'', ''200'', ''200'', ''100'', ''200'',
     ''GET http://x/ HTTP/1.1'', ''curl/7'', ''arn:target'', ''trace-1'', ''1'',
     ''2023-01-01T00:00:00.000000Z'', ''forward'', ''arn:tg'', ''200'']\<close>
  by (simp add: example_line_def line_match_def re_def grp_def ws_def quo_def dash_def skip_def)

lemma garbage_no_match: "line_match ''garbage'' = None"
  by (simp add: line_match_def re_def grp_def ws_def quo_def dash_def skip_def)

text \<open>
  Claim C2, as amended. For every line that matches the pattern of line 103, the match
  array has 22 elements (the matched text and 21 captures) and the record binds
  exactly the 21 keys of lines 111 to 113, in that order and without repetition, each
  to a string (possibly empty), none to \<^verbatim>\<open>undefined\<close>. The schema has 21 fields, not 20.
\<close>

theorem record_has_21_string_fields:
  assumes "line_match line = Some groups"
  shows "length groups = 22
     \<and> jsonLogObj line = Inr (zip field_keys (map Some (tl groups)))
     \<and> length field_keys = 21 \<and> distinct field_keys"
  using line_match_length [OF assms] jsonLogObj_match [OF assms]
  by (simp add: field_keys_def)

theorem record_has_21_string_fields_witness:
  "jsonLogObj example_line = Inr
    [(''type'', Some ''http''), (''time'', Some ''2023-01-01T00:00:00.000000Z''),
     (''elb'', Some ''my-elb''), (''client'', Some ''1.2.3.4:80''),
     (''target'', Some ''5.6.7.8:80''), (''req_proc_time'', Some ''0.001''),
     (''target_proc_time'', Some ''0.002''), (''resp_proc_time'', Some ''0.003''),
     (''elb_status'', Some ''200''), (''target_status'', Some ''200''),
     (''recv_bytes'', Some ''100''), (''sent_bytes'', Some ''200''),
     (''request'', Some ''GET http://x/ HTTP/1.1''), (''user_agent'', Some ''curl/7''),
     (''target_group_arn'', Some ''arn:target''), (''trace_id'', Some ''trace-1''),
     (''match_priority'', Some ''1''),
     (''req_creation_time'', Some ''2023-01-01T00:00:00.000000Z''),
     (''action_executed'', Some ''forward''), (''target_list'', Some ''arn:tg''),
     (''status_code'', Some ''200'')]"
  using record_has_21_string_fields [OF example_line_match]
  by (simp add: field_keys_def)

text \<open>
  The claim as stated fails on the line of the end-to-end scenario: the line matches,
  and its record has the 21 keys of the source, which are not 20.
\<close>

theorem record_has_20_fields_counterexample:
  "line_match example_line \<noteq> None
     \<and> map_sum id (map fst) (jsonLogObj example_line) = Inr field_keys
     \<and> length field_keys = 21 \<and> length field_keys \<noteq> 20"
  by (simp add: example_line_match jsonLogObj_match [OF example_line_match] field_keys_def)

section \<open>The timestamp\<close>

lemma bits_bounds: "0 < n \<Longrightarrow> 2 ^ (bits n - 1) \<le> n \<and> n < 2 ^ bits n"
proof (induction n rule: bits.induct)
  case (1 n)
  show ?case
  proof (cases "n div 2 = 0")
    case True
    with "1.prems" have "n = 1" by (simp add: div_eq_0_iff) 
    then show ?thesis by (simp add: bits.simps)
  next
    case False
    with "1.IH" "1.prems" have ih: "2 ^ (bits (n div 2) - 1) \<le> n div 2" "n div 2 < 2 ^ bits (n div 2)"
      by auto
    from False have pos: "0 < bits (n div 2)" by (subst bits.simps) simp
    have b: "bits n = Suc (bits (n div 2))" using "1.prems" by (subst bits.simps) simp
    have "2 ^ (bits n - 1) = 2 * 2 ^ (bits (n div 2) - 1)"
      using pos b by (cases "bits (n div 2)") auto
    also have "\<dots> \<le> 2 * (n div 2)" using ih(1) by simp
    also have "\<dots> \<le> n" by simp
    finally have lo: "2 ^ (bits n - 1) \<le> n" .
    have "n < 2 * (n div 2) + 2" by presburger
    also have "\<dots> \<le> 2 * 2 ^ bits (n div 2)" using ih(2) by simp
    finally have "n < 2 ^ bits n" using b by simp
    with lo show ?thesis by simp
  qed
qed

lemma bits_mono: "a \<le> b \<Longrightarrow> bits a \<le> bits b"
proof (rule ccontr)
  assume ab: "a \<le> b" and "\<not> bits a \<le> bits b"
  then have lt: "bits b < bits a" by simp
  then have apos: "0 < a" by (cases "a = 0") (auto simp: bits.simps)
  with ab have bpos: "0 < b" by simp
  from lt have "bits b \<le> bits a - 1" by simp
  then have "(2::nat) ^ bits b \<le> 2 ^ (bits a - 1)" by (rule power_increasing) simp
  with bits_bounds [OF apos] bits_bounds [OF bpos] ab show False by linarith
qed

lemma round_bounds:
  "(n div 2 ^ e) * 2 ^ e \<le> round_half_even e n \<and> round_half_even e n \<le> (n div 2 ^ e + 1) * 2 ^ e"
  by (simp add: round_half_even_def Let_def)

lemma round_mono:
  assumes "a \<le> b"
  shows "round_half_even e a \<le> round_half_even e b"
proof -
  let ?P = "(2::nat) ^ e"
  have q: "a div ?P \<le> b div ?P" using assms by (rule div_le_mono)
  show ?thesis
  proof (cases "a div ?P = b div ?P")
    case True
    have "a div ?P * ?P + a mod ?P \<le> b div ?P * ?P + b mod ?P"
      using assms by (simp only: div_mult_mod_eq)
    with True have "a mod ?P \<le> b mod ?P" by simp
    with True show ?thesis by (auto simp: round_half_even_def Let_def)
  next
    case False
    with q have "a div ?P + 1 \<le> b div ?P" by simp
    then have "(a div ?P + 1) * ?P \<le> b div ?P * ?P" by (rule mult_le_mono1)
    with round_bounds [of a e] round_bounds [of b e] show ?thesis by linarith
  qed
qed

lemma bits_gt:
  assumes "2 ^ p \<le> n"
  shows "p < bits n"
proof -
  from assms have pos: "0 < n" by (cases "n = 0") auto
  from bits_bounds [OF pos] assms have "(2::nat) ^ p < 2 ^ bits n" by linarith
  then show ?thesis by (rule power_less_imp_less_exp [rotated]) simp
qed

lemma round_big:
  assumes "2 ^ Suc p \<le> n"
  shows "2 ^ (bits n - 1) \<le> round_half_even (bits n - Suc p) n
     \<and> round_half_even (bits n - Suc p) n \<le> 2 ^ bits n"
proof -
  let ?e = "bits n - Suc p"
  from assms have pos: "0 < n" by (cases "n = 0") auto
  from bits_bounds [OF pos] have lo: "2 ^ (bits n - 1) \<le> n" and hi: "n < 2 ^ bits n" by auto
  from bits_gt [OF assms] have split: "bits n = Suc p + ?e" "bits n - 1 = p + ?e" by auto
  have "(2::nat) ^ p * 2 ^ ?e \<le> n" using lo by (simp only: split(2) power_add)
  then have q_lo: "2 ^ p \<le> n div 2 ^ ?e"
    by (simp add: less_eq_div_iff_mult_less_eq)
  have "n < 2 ^ bits n" by (rule hi)
  also have "\<dots> = 2 ^ Suc p * 2 ^ ?e" by (subst split(1)) (simp only: power_add)
  finally have q_hi: "n div 2 ^ ?e < 2 ^ Suc p"
    by (simp add: div_less_iff_less_mult)
  have "2 ^ (bits n - 1) = (2::nat) ^ p * 2 ^ ?e" by (simp only: split(2) power_add)
  also have "\<dots> \<le> (n div 2 ^ ?e) * 2 ^ ?e" using q_lo by (rule mult_le_mono1)
  also have "\<dots> \<le> round_half_even ?e n" using round_bounds [of n ?e] by simp
  finally have A: "2 ^ (bits n - 1) \<le> round_half_even ?e n" .
  have "n div 2 ^ ?e + 1 \<le> 2 ^ Suc p" using q_hi by simp
  then have "(n div 2 ^ ?e + 1) * 2 ^ ?e \<le> 2 ^ Suc p * 2 ^ ?e" by (rule mult_le_mono1)
  also have "\<dots> = 2 ^ bits n" by (subst (2) split(1)) (simp only: power_add)
  finally have "round_half_even ?e n \<le> 2 ^ bits n" using round_bounds [of n ?e] by linarith
  with A show ?thesis by simp
qed

lemma toNumber_big:
  assumes "2 ^ 53 \<le> n"
  shows "2 ^ (bits n - 1) \<le> toNumber n \<and> toNumber n \<le> 2 ^ bits n"
proof -
  have "(2::nat) ^ Suc 52 \<le> n" using assms by simp
  from round_big [OF this] assms show ?thesis by (simp add: toNumber_def)
qed

lemma toNumber_mono:
  assumes "a \<le> b"
  shows "toNumber a \<le> toNumber b"
proof (cases "b < 2 ^ 53")
  case True
  with assms show ?thesis by (simp add: toNumber_def)
next
  case bigb: False
  then have b: "2 ^ 53 \<le> b" by simp
  show ?thesis
  proof (cases "a < 2 ^ 53")
    case True
    have "53 \<le> bits b - 1" using bits_gt [OF b] by simp
    then have "(2::nat) ^ 53 \<le> 2 ^ (bits b - 1)" by (rule power_increasing) simp
    with True toNumber_big [OF b] have "a \<le> toNumber b" by linarith
    with True show ?thesis by (simp add: toNumber_def)
  next
    case False
    then have a: "2 ^ 53 \<le> a" by simp
    show ?thesis
    proof (cases "bits a = bits b")
      case True
      with a b round_mono [OF assms, of "bits b - 53"] show ?thesis
        by (simp add: toNumber_def)
    next
      case False
      with bits_mono [OF assms] have "bits a \<le> bits b - 1" by simp
      then have "(2::nat) ^ bits a \<le> 2 ^ (bits b - 1)" by (rule power_increasing) simp
      with toNumber_big [OF a] toNumber_big [OF b] show ?thesis by linarith
    qed
  qed
qed

lemma toNumber_exact: "n < 2 ^ 53 \<Longrightarrow> toNumber n = n"
  by (simp add: toNumber_def)

lemma round_error:
  assumes "0 < e"
  shows "round_half_even e n - n \<le> 2 ^ (e - 1) \<and> n - round_half_even e n \<le> 2 ^ (e - 1)"
proof -
  let ?P = "(2::nat) ^ e" and ?h = "(2::nat) ^ (e - 1)"
  let ?q = "n div ?P" and ?r = "n mod ?P"
  have P: "?P = 2 * ?h" using assms by (cases e) auto
  have n: "n = ?q * ?P + ?r" by (rule div_mult_mod_eq [symmetric])
  have r: "?r < ?P" by simp
  show ?thesis
  proof (cases "?r < ?h \<or> (?r = ?h \<and> even ?q)")
    case True
    then have t: "round_half_even e n = ?q * ?P" by (simp add: round_half_even_def Let_def)
    from True have "?r \<le> ?h" by auto
    with n have "n - ?q * ?P \<le> ?h" by linarith
    moreover have "?q * ?P \<le> n" by simp
    ultimately show ?thesis unfolding t by simp
  next
    case False
    then have t: "round_half_even e n = ?q * ?P + ?P" by (simp add: round_half_even_def Let_def)
    from False have "?h \<le> ?r" by auto
    with n P r have "?q * ?P + ?P - n \<le> ?h" by linarith
    moreover have "n \<le> ?q * ?P + ?P" using n r by linarith
    ultimately show ?thesis unfolding t by simp
  qed
qed

lemma toNumber_error: "2 ^ 53 * (toNumber n - n) \<le> n \<and> 2 ^ 53 * (n - toNumber n) \<le> n"
proof (cases "n < 2 ^ 53")
  case True
  then show ?thesis by (simp add: toNumber_def)
next
  case False
  then have big: "2 ^ 53 \<le> n" by simp
  let ?e = "bits n - 53"
  from bits_gt [OF big] have e: "0 < ?e" and split: "bits n - 1 = 53 + (?e - 1)" by auto
  from big have pos: "0 < n" by (cases "n = 0") auto
  have t: "toNumber n = round_half_even ?e n" using False by (simp add: toNumber_def)
  have "(2::nat) ^ 53 * 2 ^ (?e - 1) = 2 ^ (bits n - 1)" by (simp only: split power_add)
  also have "\<dots> \<le> n" using bits_bounds [OF pos] by simp
  finally have b: "(2::nat) ^ 53 * 2 ^ (?e - 1) \<le> n" .
  from round_error [OF e, of n]
  have "2 ^ 53 * (toNumber n - n) \<le> (2::nat) ^ 53 * 2 ^ (?e - 1)"
    and "2 ^ 53 * (n - toNumber n) \<le> (2::nat) ^ 53 * 2 ^ (?e - 1)"
    unfolding t by (simp_all only: mult_le_mono2)
  with b show ?thesis by linarith
qed

section \<open>The blob and the loop\<close>

lemma split_nl_line:
  "CHR 0x0A \<notin> set l \<Longrightarrow> split_nl (l @ CHR 0x0A # rest) = l # split_nl rest"
  by (induction l) (auto split: list.splits)

lemma split_nl_blob:
  "list_all (\<lambda>l. CHR 0x0A \<notin> set l) ls \<Longrightarrow> split_nl (blob ls) = ls @ [[]]"
  by (induction ls) (auto simp: blob_def split_nl_line)

lemma logArray_blob:
  "list_all (\<lambda>l. CHR 0x0A \<notin> set l) ls \<Longrightarrow> logArray (blob ls) = ls"
  by (simp add: logArray_def split_nl_blob)

lemma example_line_no_newline: "CHR 0x0A \<notin> set example_line"
  by (simp add: example_line_def)

lemma jsonLogLine_match:
  "line_match line = Some groups \<Longrightarrow>
   jsonLogLine line = stringify (zip field_keys (map Some (tl groups)))"
  by (simp add: jsonLogLine_def jsonLogObj_match)

lemma posts_append: "posts (xs @ ys) = posts xs @ posts ys"
  by (induction xs rule: posts.induct) auto

lemma writes_append: "writes (xs @ ys) = writes xs @ writes ys"
  by (induction xs rule: writes.induct) auto

text \<open>One iteration of the loop of \<open>sendLines\<close> on a line that matches.\<close>

lemma sendLines_step:
  assumes "line_match line \<noteq> None"
  shows "sendLines cfg clk rej i (line # rest) =
     (fst (sendLines cfg clk rej (Suc i) rest),
      Post (loki_post cfg (clk i) (jsonLogLine line))
        # (case rej i of None \<Rightarrow> [] | Some err \<Rightarrow> [Log (''Logging error: '' @ err)])
        @ snd (sendLines cfg clk rej (Suc i) rest))"
proof -
  from assms obtain groups where g: "line_match line = Some groups" by auto
  show ?thesis
    by (simp add: jsonLogObj_match [OF g] jsonLogLine_match [OF g] Let_def split: prod.splits)
qed

lemma sendLines_all_match:
  assumes "list_all (\<lambda>l. line_match l \<noteq> None) ls"
  shows "fst (sendLines cfg clk rej i ls) = Inr ()
     \<and> posts (snd (sendLines cfg clk rej i ls))
         = map (\<lambda>j. loki_post cfg (clk (i + j)) (jsonLogLine (ls ! j))) [0 ..< length ls]
     \<and> writes (snd (sendLines cfg clk rej i ls)) = []"
  using assms
proof (induction ls arbitrary: i)
  case Nil
  then show ?case by simp
next
  case (Cons l ls)
  then have l: "line_match l \<noteq> None" and ls: "list_all (\<lambda>l. line_match l \<noteq> None) ls"
    by auto
  have up: "[0 ..< length (l # ls)] = 0 # map Suc [0 ..< length ls]"
    by (simp add: upt_conv_Cons map_Suc_upt del: upt_Suc)
  have logs: "posts (case rej i of None \<Rightarrow> [] | Some err \<Rightarrow> [Log (''Logging error: '' @ err)]) = []"
    "writes (case rej i of None \<Rightarrow> [] | Some err \<Rightarrow> [Log (''Logging error: '' @ err)]) = []"
    by (auto split: option.splits)
  from Cons.IH [OF ls, of "Suc i"] show ?case
    unfolding sendLines_step [OF l] up
    by (simp add: posts_append writes_append logs comp_def del: upt_Suc)
qed

lemma sendLines_writes: "writes (snd (sendLines cfg clk rej i ls)) = []"
proof (induction ls arbitrary: i)
  case Nil
  then show ?case by simp
next
  case (Cons l ls)
  show ?case
  proof (cases "line_match l")
    case None
    then show ?thesis by (simp add: jsonLogObj_null)
  next
    case (Some g)
    then have "line_match l \<noteq> None" by simp
    from sendLines_step [OF this] Cons.IH show ?thesis
      by (auto simp: writes_append split: option.splits)
  qed
qed

lemma members_zip:
  "length ks = length vs \<Longrightarrow>
   members (zip ks (map Some vs)) = map (\<lambda>(k, v). quote k @ '':'' @ quote v) (zip ks vs)"
  by (induction ks vs rule: list_induct2) auto

lemma sublist_wrap: "sublist x y \<Longrightarrow> sublist x (a @ y @ b)"
proof -
  assume "sublist x y"
  then obtain ps ss where "y = ps @ x @ ss" by (auto simp: sublist_def)
  then have "a @ y @ b = (a @ ps) @ x @ (ss @ b)" by simp
  then show ?thesis unfolding sublist_def by blast
qed

lemma sublist_join: "x \<in> set xs \<Longrightarrow> sublist x (join sep xs)"
proof (induction sep xs rule: join.induct)
  case (1 sep)
  then show ?case by simp
next
  case (2 sep x)
  then show ?case by simp
next
  case (3 sep a b bs)
  show ?case
  proof (cases "x = a")
    case True
    then show ?thesis by simp
  next
    case False
    with 3 have "sublist x (join sep (b # bs))" by simp
    from sublist_wrap [OF this, of "a @ sep" "[]"] show ?thesis by simp
  qed
qed

lemma payload_contains:
  assumes g: "line_match line = Some groups" and j: "j < 21"
  shows "sublist (quote (field_keys ! j) @ '':'' @ quote (groups ! Suc j)) (jsonLogLine line)"
proof -
  have len: "length field_keys = 21" by (simp add: field_keys_def)
  from line_match_length [OF g] have l: "length (tl groups) = 21" by simp
  have nth: "tl groups ! j = groups ! Suc j"
    using j l by (simp add: nth_tl)
  have "(field_keys ! j, tl groups ! j) \<in> set (zip field_keys (tl groups))"
    using j len l by (metis in_set_zip fst_conv snd_conv)
  then have "quote (field_keys ! j) @ '':'' @ quote (tl groups ! j)
      \<in> set (map (\<lambda>(k, v). quote k @ '':'' @ quote v) (zip field_keys (tl groups)))"
    by force
  then have "sublist (quote (field_keys ! j) @ '':'' @ quote (groups ! Suc j))
      (join '','' (members (zip field_keys (map Some (tl groups)))))"
    using sublist_join members_zip [of field_keys "tl groups"] len l nth by simp
  then have "sublist (quote (field_keys ! j) @ '':'' @ quote (groups ! Suc j))
      (''{'' @ join '','' (members (zip field_keys (map Some (tl groups)))) @ ''}'')"
    by (rule sublist_wrap)
  then show ?thesis by (simp add: jsonLogLine_match [OF g] stringify_def)
qed

text \<open>The payload read back is the record: the serialization loses nothing.\<close>

lemma position_nth:
  "distinct xs \<Longrightarrow> k < length xs \<Longrightarrow> position (xs ! k) xs = Some k"
proof (induction xs arbitrary: k)
  case Nil
  then show ?case by simp
next
  case (Cons x xs)
  show ?case
  proof (cases k)
    case 0
    then show ?thesis by simp
  next
    case (Suc j)
    with Cons.prems have "xs ! j \<noteq> x" "j < length xs" "distinct xs" by auto
    with Cons.IH [of j] Suc show ?thesis by simp
  qed
qed

lemma hex_value_digit: "k < 16 \<Longrightarrow> hex_value (hex_digit k) = Some k"
  unfolding hex_value_def hex_digit_def by (rule position_nth) simp_all

lemma char_codes:
  "(of_char c = (8::nat)) = (c = CHR 0x08)"
  "(of_char c = (9::nat)) = (c = CHR 0x09)"
  "(of_char c = (10::nat)) = (c = CHR 0x0A)"
  "(of_char c = (12::nat)) = (c = CHR 0x0C)"
  "(of_char c = (13::nat)) = (c = CHR 0x0D)"
  "(of_char c = (34::nat)) = (c = CHR 0x22)"
  "(of_char c = (92::nat)) = (c = CHR 0x5C)"
  using of_char_eq_iff [of c "CHR 0x08", where ?'a = nat]
    of_char_eq_iff [of c "CHR 0x09", where ?'a = nat]
    of_char_eq_iff [of c "CHR 0x0A", where ?'a = nat]
    of_char_eq_iff [of c "CHR 0x0C", where ?'a = nat]
    of_char_eq_iff [of c "CHR 0x0D", where ?'a = nat]
    of_char_eq_iff [of c "CHR 0x22", where ?'a = nat]
    of_char_eq_iff [of c "CHR 0x5C", where ?'a = nat]
  by simp_all

lemma unescape_plain:
  "plain c \<Longrightarrow>
   unescape (c # X) = (case unescape X of None \<Rightarrow> None | Some (s, r) \<Rightarrow> Some (c # s, r))"
  by (auto simp: plain_def char_codes [symmetric])

lemma escape_plain: "plain c \<Longrightarrow> escape c = [c]"
  by (auto simp: plain_def escape_def Let_def char_codes)

lemma unescape_escape:
  "unescape (escape c @ X) = (case unescape X of None \<Rightarrow> None | Some (s, r) \<Rightarrow> Some (c # s, r))"
proof -
  define n :: nat where "n = of_char c"
  have c: "c = char_of n" by (simp add: n_def)
  consider "n = 8" | "n = 9" | "n = 10" | "n = 12" | "n = 13" | "n = 34" | "n = 92"
    | "n < 32" "n \<notin> {8, 9, 10, 12, 13}" | "32 \<le> n" "n \<noteq> 34" "n \<noteq> 92"
    by fastforce
  then show ?thesis
  proof cases
    case 8
    then have "n div 16 < 16" "n mod 16 < 16" "16 * (n div 16) + n mod 16 = n" by simp_all
    with 8 show ?thesis
      unfolding escape_def Let_def n_def [symmetric]
      by (simp add: hex_value_digit c split: option.splits)
  next
    case 9
    then have p: "plain c"
      by (auto simp: plain_def n_def char_codes [symmetric])
    show ?thesis
      unfolding escape_plain [OF p] using unescape_plain [OF p, of X]
      by (simp only: append_Cons append_Nil)
  qed (simp_all add: escape_def Let_def simple_escape_def n_def char_codes split: option.splits)
qed

lemma unescape_string:
  "unescape (concat (map escape s) @ CHR 0x22 # rest) = Some (s, rest)"
  by (induction s) (simp_all add: unescape_escape)

lemma read_string_quote: "read_string (quote s @ rest) = Some (s, rest)"
  by (simp add: quote_def unescape_string)

lemma read_member_quote:
  "read_member (quote k @ '':'' @ quote v @ rest) = Some ((k, v), rest)"
  unfolding read_member_def
  by (simp add: read_string_quote read_string_quote [of v rest, simplified])

lemma join_length: "list_all (\<lambda>x. x \<noteq> []) xs \<Longrightarrow> length xs \<le> length (join sep xs)"
proof (induction sep xs rule: join.induct)
  case (1 sep)
  then show ?case by simp
next
  case (2 sep x)
  then show ?case by (cases x) auto
next
  case (3 sep x y ys)
  then have "x \<noteq> []" by simp
  then have "1 \<le> length x" by (cases x) auto
  with 3 show ?case by simp
qed

lemma read_members_join:
  "kvs \<noteq> [] \<Longrightarrow> length kvs \<le> n \<Longrightarrow>
   read_members n (join '','' (map (\<lambda>(k, v). quote k @ '':'' @ quote v) kvs) @ ''}'') = Some kvs"
proof (induction kvs arbitrary: n)
  case Nil
  then show ?case by simp
next
  case (Cons kv kvs)
  obtain k v where kv: "kv = (k, v)" by (cases kv)
  from Cons.prems obtain m where n: "n = Suc m" by (cases n) auto
  show ?case
  proof (cases kvs)
    case Nil
    have "read_member (quote k @ '':'' @ quote v @ ''}'') = Some ((k, v), ''}'')"
      by (rule read_member_quote)
    with Nil kv n show ?thesis by simp
  next
    case (Cons kv' kvs')
    let ?rest = "join '','' (map (\<lambda>(k, v). quote k @ '':'' @ quote v) kvs) @ ''}''"
    have "read_member (quote k @ '':'' @ quote v @ '','' @ ?rest) = Some ((k, v), '','' @ ?rest)"
      by (rule read_member_quote)
    moreover have "read_members m ?rest = Some kvs"
      using Cons.IH [of m] Cons.prems n Cons by simp
    ultimately show ?thesis using Cons kv n by simp
  qed
qed

lemma read_object_stringify:
  assumes "length ks = length vs" and "ks \<noteq> []"
  shows "read_object (stringify (zip ks (map Some vs))) = Some (zip ks vs)"
proof -
  let ?ms = "map (\<lambda>(k, v). quote k @ '':'' @ quote v) (zip ks vs)"
  let ?r = "join '','' ?ms @ ''}''"
  from assms have ne: "zip ks vs \<noteq> []" by (cases ks; cases vs) auto
  have s: "stringify (zip ks (map Some vs)) = CHR ''{'' # ?r"
    by (simp add: stringify_def members_zip [OF assms(1)])
  have "list_all (\<lambda>x. x \<noteq> []) ?ms" by (auto simp: list_all_iff quote_def)
  from join_length [OF this, of "'',''"] have len: "length (zip ks vs) \<le> length ?r" by simp
  obtain kv kvs where z: "zip ks vs = kv # kvs" using ne by (cases "zip ks vs") auto
  have "hd ?r = CHR 0x22" unfolding z by (cases kv; cases kvs) (auto simp: quote_def)
  then have "?r \<noteq> ''}''" by auto
  with read_members_join [OF ne len] show ?thesis
    unfolding s read_object_def by simp
qed

lemma read_object_payload:
  assumes "line_match line = Some groups"
  shows "read_object (jsonLogLine line) = Some (zip field_keys (tl groups))"
proof -
  from line_match_length [OF assms] have "length field_keys = length (tl groups)"
    by (simp add: field_keys_def)
  moreover have "field_keys \<noteq> []" by (simp add: field_keys_def)
  ultimately show ?thesis
    by (simp add: jsonLogLine_match [OF assms] read_object_stringify)
qed

lemma quote_plain: "list_all plain s \<Longrightarrow> quote s = CHR 0x22 # s @ [CHR 0x22]"
proof -
  assume "list_all plain s"
  then have "concat (map escape s) = s" by (induction s) (simp_all add: escape_plain)
  then show ?thesis by (simp add: quote_def)
qed

lemma field_keys_plain: "list_all (list_all plain) field_keys"
  by (simp add: field_keys_def plain_def)

lemma payload_contains_plain:
  assumes g: "line_match line = Some groups" and j: "j < 21"
    and p: "list_all plain (groups ! Suc j)"
  shows "sublist (CHR 0x22 # field_keys ! j @ [CHR 0x22, CHR '':'', CHR 0x22]
      @ groups ! Suc j @ [CHR 0x22]) (jsonLogLine line)"
proof -
  have "length field_keys = 21" by (simp add: field_keys_def)
  with j have "field_keys ! j \<in> set field_keys" by (intro nth_mem) simp
  with field_keys_plain have "list_all plain (field_keys ! j)" by (simp add: list_all_iff)
  from payload_contains [OF g j] quote_plain [OF this] quote_plain [OF p]
  show ?thesis by simp
qed

lemma example_payload: "jsonLogLine example_line = example_json"
  by (simp add: jsonLogLine_match [OF example_line_match] stringify_def field_keys_def
      quote_def escape_def Let_def example_json_def)

lemma example_captures:
  "line_match example_line = Some (example_line # example_values)"
  by (simp add: example_line_match example_values_def) (simp add: example_line_def)

lemma lineA_no_match: "line_match ''lineA'' = None"
  by (simp add: line_match_def re_def grp_def ws_def quo_def dash_def skip_def)

lemma split_nl_nonempty: "split_nl s \<noteq> []"
  by (induction s) (auto split: list.splits)

lemma split_nl_no_newline: "list_all (\<lambda>l. CHR 0x0A \<notin> set l) (split_nl s)"
  by (induction s) (auto split: list.splits)

lemma split_nl_join:
  "concat (map (\<lambda>l. l @ [CHR 0x0A]) (butlast (split_nl s))) @ last (split_nl s) = s"
proof (induction s)
  case Nil
  then show ?case by simp
next
  case (Cons c cs)
  show ?case
  proof (cases "c = CHR 0x0A")
    case True
    with Cons split_nl_nonempty [of cs] show ?thesis by simp
  next
    case False
    obtain p ps where sp: "split_nl cs = p # ps"
      using split_nl_nonempty [of cs] by (cases "split_nl cs") auto
    with Cons False show ?thesis by (cases "ps = []") auto
  qed
qed

lemma split_nl_last:
  "s \<noteq> [] \<Longrightarrow> last s = CHR 0x0A \<Longrightarrow> last (split_nl s) = []"
proof (induction s)
  case Nil
  then show ?case by simp
next
  case (Cons c cs)
  show ?case
  proof (cases "cs = []")
    case True
    with Cons.prems show ?thesis by simp
  next
    case False
    with Cons have ih: "last (split_nl cs) = []" by simp
    obtain p ps where sp: "split_nl cs = p # ps"
      using split_nl_nonempty [of cs] by (cases "split_nl cs") auto
    have "ps \<noteq> [] \<or> p = []" using ih sp by (cases "ps = []") auto
    moreover have "p = [] \<Longrightarrow> ps = [] \<Longrightarrow> cs = []"
      using split_nl_join [of cs] sp by simp
    ultimately have "ps \<noteq> []" using False by blast
    with sp ih show ?thesis by (auto split: list.splits)
  qed
qed

lemma blob_logArray:
  assumes "logData \<noteq> []" and "last logData = CHR 0x0A"
  shows "blob (logArray logData) = logData"
  using split_nl_join [of logData] split_nl_last [OF assms]
  by (simp add: blob_def logArray_def)

lemma logArray_no_newline: "list_all (\<lambda>l. CHR 0x0A \<notin> set l) (logArray logData)"
  using split_nl_no_newline [of logData]
  by (auto simp: logArray_def list_all_iff dest: in_set_butlastD)

lemma payloads_sendToLoki:
  assumes "list_all (\<lambda>l. line_match l \<noteq> None) (logArray logData)"
  shows "fst (sendToLoki cfg clk rej logData) = Inr ()
     \<and> payloads (snd (sendToLoki cfg clk rej logData)) = map jsonLogLine (logArray logData)"
proof -
  from sendLines_all_match [OF assms, of cfg clk rej 0]
  have r: "fst (sendToLoki cfg clk rej logData) = Inr ()"
    and p: "posts (snd (sendToLoki cfg clk rej logData))
      = map (\<lambda>j. loki_post cfg (clk j) (jsonLogLine (logArray logData ! j)))
          [0 ..< length (logArray logData)]"
    by (simp_all add: sendToLoki_def)
  have "payloads (snd (sendToLoki cfg clk rej logData))
      = map (\<lambda>j. jsonLogLine (logArray logData ! j)) [0 ..< length (logArray logData)]"
    unfolding payloads_def p by (simp add: loki_post_def comp_def concat_map_singleton)
  also have "\<dots> = map jsonLogLine (map (\<lambda>j. logArray logData ! j) [0 ..< length (logArray logData)])"
    by (simp add: comp_def)
  also have "\<dots> = map jsonLogLine (logArray logData)" by (simp only: map_nth)
  finally show ?thesis using r by simp
qed

text \<open>
  Claim C8, as amended. A text that ends in a newline is the blob of the lines that
  \<open>logArray\<close> returns: these lines hold no newline, each of them followed by a newline
  gives the text back, and they are the only such lines, so there is one element per
  log line and no empty element after the last. When every one of these lines matches
  the pattern, \<open>sendToLoki\<close> returns and sends exactly one payload per line, in order,
  and each payload read back as JSON is the record of its line.
\<close>

theorem trailing_newline_lines:
  assumes "logData \<noteq> []" and "last logData = CHR 0x0A"
  shows "list_all (\<lambda>l. CHR 0x0A \<notin> set l) (logArray logData)
     \<and> blob (logArray logData) = logData
     \<and> (list_all (\<lambda>l. CHR 0x0A \<notin> set l) ls \<and> logData = blob ls \<longrightarrow> logArray logData = ls)
     \<and> (list_all (\<lambda>l. line_match l \<noteq> None) (logArray logData) \<longrightarrow>
          fst (sendToLoki cfg clk rej logData) = Inr ()
          \<and> payloads (snd (sendToLoki cfg clk rej logData)) = map jsonLogLine (logArray logData)
          \<and> map read_object (payloads (snd (sendToLoki cfg clk rej logData)))
              = map (\<lambda>l. map_option (\<lambda>groups. zip field_keys (tl groups)) (line_match l))
                  (logArray logData))"
proof -
  have "map read_object (payloads (snd (sendToLoki cfg clk rej logData)))
      = map (\<lambda>l. map_option (\<lambda>groups. zip field_keys (tl groups)) (line_match l))
          (logArray logData)"
    if all: "list_all (\<lambda>l. line_match l \<noteq> None) (logArray logData)"
  proof -
    have "read_object (jsonLogLine l)
        = map_option (\<lambda>groups. zip field_keys (tl groups)) (line_match l)"
      if "l \<in> set (logArray logData)" for l
    proof -
      from all that obtain groups where "line_match l = Some groups"
        by (auto simp: list_all_iff)
      then show ?thesis by (simp add: read_object_payload)
    qed
    with payloads_sendToLoki [OF all, of cfg clk rej] show ?thesis by simp
  qed
  with logArray_no_newline [of logData] blob_logArray [OF assms] logArray_blob [of ls]
    payloads_sendToLoki [of logData cfg clk rej]
  show ?thesis by auto
qed

theorem trailing_newline_lines_witness:
  "logArray (blob [example_line, example_line]) = [example_line, example_line]
   \<and> fst (sendToLoki sample_config (\<lambda>i. 1700000002000 + i) (\<lambda>i. None)
         (blob [example_line, example_line])) = Inr ()
   \<and> payloads (snd (sendToLoki sample_config (\<lambda>i. 1700000002000 + i) (\<lambda>i. None)
         (blob [example_line, example_line])))
      = [example_json, example_json]
   \<and> map read_object [example_json, example_json]
      = [Some (zip field_keys example_values), Some (zip field_keys example_values)]"
proof -
  have e: "blob [example_line, example_line] \<noteq> []"
    "last (blob [example_line, example_line]) = CHR 0x0A"
    by (simp_all add: blob_def)
  have n: "list_all (\<lambda>l. CHR 0x0A \<notin> set l) [example_line, example_line]"
    by (simp add: example_line_no_newline)
  note w = trailing_newline_lines [OF e, of "[example_line, example_line]" sample_config
      "\<lambda>i. 1700000002000 + i" "\<lambda>i. None"]
  from w n have l: "logArray (blob [example_line, example_line]) = [example_line, example_line]"
    by simp
  have m: "list_all (\<lambda>l. line_match l \<noteq> None) (logArray (blob [example_line, example_line]))"
    by (simp add: l example_captures)
  from w m have r: "fst (sendToLoki sample_config (\<lambda>i. 1700000002000 + i) (\<lambda>i. None)
         (blob [example_line, example_line])) = Inr ()"
    and p: "payloads (snd (sendToLoki sample_config (\<lambda>i. 1700000002000 + i) (\<lambda>i. None)
         (blob [example_line, example_line])))
      = map jsonLogLine (logArray (blob [example_line, example_line]))"
    and o: "map read_object (payloads (snd (sendToLoki sample_config (\<lambda>i. 1700000002000 + i)
         (\<lambda>i. None) (blob [example_line, example_line]))))
      = map (\<lambda>l. map_option (\<lambda>groups. zip field_keys (tl groups)) (line_match l))
          (logArray (blob [example_line, example_line]))"
    by blast+
  from p have p': "payloads (snd (sendToLoki sample_config (\<lambda>i. 1700000002000 + i) (\<lambda>i. None)
         (blob [example_line, example_line]))) = [example_json, example_json]"
    by (simp add: l example_payload)
  from o have "map read_object [example_json, example_json]
      = [Some (zip field_keys example_values), Some (zip field_keys example_values)]"
    unfolding p' by (simp add: l example_captures)
  with l r p' show ?thesis by blast
qed

text \<open>
  The claim as stated fails on its own blob: the text ends in a newline and splits
  into the two lines, but the first of them does not match the pattern, so
  \<open>sendToLoki\<close> throws and no record is sent for either line.
\<close>

theorem lineA_lineB_yield_no_record_counterexample:
  "blob [''lineA'', ''lineB''] = ''lineA'' @ [CHR 0x0A] @ ''lineB'' @ [CHR 0x0A]
   \<and> last (blob [''lineA'', ''lineB'']) = CHR 0x0A
   \<and> logArray (blob [''lineA'', ''lineB'']) = [''lineA'', ''lineB'']
   \<and> sendToLoki sample_config (\<lambda>i. 1700000002000 + i) (\<lambda>i. None) (blob [''lineA'', ''lineB''])
      = (Inl TypeError, [])"
proof -
  have "logArray (blob [''lineA'', ''lineB'']) = [''lineA'', ''lineB'']"
    by (rule logArray_blob) simp
  moreover from this
  have "sendToLoki sample_config (\<lambda>i. 1700000002000 + i) (\<lambda>i. None) (blob [''lineA'', ''lineB''])
      = (Inl TypeError, [])"
    by (simp add: sendToLoki_def jsonLogObj_null [OF lineA_no_match])
  moreover have "blob [''lineA'', ''lineB''] = ''lineA'' @ [CHR 0x0A] @ ''lineB'' @ [CHR 0x0A]"
    "last (blob [''lineA'', ''lineB'']) = CHR 0x0A"
    by (simp_all add: blob_def)
  ultimately show ?thesis by blast
qed

text \<open>
  Claim C1, at a failing input: a blob of three lines whose second line does not match
  the pattern, no request being rejected. The record of the first line is sent; the
  second line makes
  \<open>sendToLoki\<close> throw a TypeError (line 114 reads an element of \<^verbatim>\<open>null\<close>), and the third
  line, which matches, is never parsed nor sent.
\<close>

theorem malformed_line_aborts_blob:
  "sendToLoki cfg clk (\<lambda>i. None) (blob [example_line, ''garbage'', example_line])
     = (Inl TypeError, [Post (loki_post cfg (clk 0) (jsonLogLine example_line))])"
proof -
  have m: "line_match example_line \<noteq> None" by (simp add: example_line_match)
  have "logArray (blob [example_line, ''garbage'', example_line])
      = [example_line, ''garbage'', example_line]"
    by (simp add: logArray_blob example_line_no_newline)
  moreover have "sendLines cfg clk (\<lambda>i. None) (Suc 0) (''garbage'' # [example_line])
      = (Inl TypeError, [])"
    by (simp add: jsonLogObj_null [OF garbage_no_match])
  ultimately show ?thesis
    by (simp add: sendToLoki_def sendLines_step [OF m] del: sendLines.simps(2))
qed

lemma sorted_map_mono:
  "(\<And>i j. i \<le> j \<Longrightarrow> f i \<le> (f j :: nat)) \<Longrightarrow> sorted (map f [a ..< b])"
  by (induction b) (auto simp: sorted_append)

text \<open>
  Claim C9. When every line of the blob matches the pattern (N records), \<open>sendToLoki\<close>
  returns and issues N requests in the order of the lines, each with exactly one
  timestamp/payload pair. The payload is the serialization of the line's record: read
  back as JSON it gives the 21 keys with the 21 captured values, and a value made of
  characters that JSON writes as themselves stands in the payload as it is, between
  quotes, after its quoted key and a colon. The timestamp is the Number
  \<^verbatim>\<open>Date.now() * 1000000\<close> for the clock reading of that iteration, whatever the line
  says: nanoseconds since the epoch, within a relative error of \<open>2 ^ - 53\<close>. When the
  clock readings do not decrease from one iteration to the next, neither do the
  timestamps.
\<close>

theorem one_pair_per_record:
  assumes "list_all (\<lambda>l. line_match l \<noteq> None) (logArray logData)"
  shows "fst (sendToLoki cfg clk rej logData) = Inr ()
     \<and> map values (posts (snd (sendToLoki cfg clk rej logData)))
         = map (\<lambda>i. [(toNumber (clk i * 1000000), jsonLogLine (logArray logData ! i))])
             [0 ..< length (logArray logData)]
     \<and> (\<forall>i groups. i < length (logArray logData)
            \<and> line_match (logArray logData ! i) = Some groups \<longrightarrow>
          read_object (jsonLogLine (logArray logData ! i)) = Some (zip field_keys (tl groups)))
     \<and> (\<forall>i groups j. i < length (logArray logData)
            \<and> line_match (logArray logData ! i) = Some groups \<and> j < 21
            \<and> list_all plain (groups ! Suc j) \<longrightarrow>
          sublist (CHR 0x22 # field_keys ! j @ [CHR 0x22, CHR '':'', CHR 0x22]
              @ groups ! Suc j @ [CHR 0x22])
            (jsonLogLine (logArray logData ! i)))
     \<and> (\<forall>i groups j. i < length (logArray logData)
            \<and> line_match (logArray logData ! i) = Some groups \<and> j < 21 \<longrightarrow>
          sublist (quote (field_keys ! j) @ '':'' @ quote (groups ! Suc j))
            (jsonLogLine (logArray logData ! i)))
     \<and> (\<forall>i. 2 ^ 53 * (toNumber (clk i * 1000000) - clk i * 1000000) \<le> clk i * 1000000
            \<and> 2 ^ 53 * (clk i * 1000000 - toNumber (clk i * 1000000)) \<le> clk i * 1000000)
     \<and> ((\<forall>i j. i \<le> j \<longrightarrow> clk i \<le> clk j) \<longrightarrow>
          sorted (timestamps (snd (sendToLoki cfg clk rej logData))))"
proof -
  let ?ls = "logArray logData" and ?es = "snd (sendToLoki cfg clk rej logData)"
  from sendLines_all_match [OF assms, of cfg clk rej 0]
  have r: "fst (sendToLoki cfg clk rej logData) = Inr ()"
    and p: "posts ?es = map (\<lambda>j. loki_post cfg (clk j) (jsonLogLine (?ls ! j))) [0 ..< length ?ls]"
    by (simp_all add: sendToLoki_def)
  have v: "map values (posts ?es)
      = map (\<lambda>i. [(toNumber (clk i * 1000000), jsonLogLine (?ls ! i))]) [0 ..< length ?ls]"
    unfolding p by (simp add: loki_post_def comp_def)
  have t: "timestamps ?es = map (\<lambda>i. toNumber (clk i * 1000000)) [0 ..< length ?ls]"
    unfolding timestamps_def p by (simp add: loki_post_def comp_def concat_map_singleton)
  have s: "sorted (timestamps ?es)" if "\<forall>i j. i \<le> j \<longrightarrow> clk i \<le> clk j"
    unfolding t using that by (intro sorted_map_mono toNumber_mono) simp
  from r v s payload_contains payload_contains_plain read_object_payload toNumber_error
  show ?thesis by blast
qed

theorem one_pair_per_record_witness:
  \<open>fst (sendToLoki sample_config (\<lambda>i. 1700000002000 + i) (\<lambda>i. None)
      (blob [example_line, example_line])) = Inr ()
   \<and> map values (posts (snd (sendToLoki sample_config (\<lambda>i. 1700000002000 + i) (\<lambda>i. None)
      (blob [example_line, example_line]))))
     = [[(toNumber 1700000002000000000, example_json)],
        [(toNumber 1700000002001000000, example_json)]]
   \<and> read_object example_json = Some (zip field_keys example_values)
   \<and> sublist ''"elb_status":"200"'' example_json
   \<and> sorted (timestamps (snd (sendToLoki sample_config (\<lambda>i. 1700000002000 + i) (\<lambda>i. None)
      (blob [example_line, example_line]))))\<close>
proof -
  let ?es = "snd (sendToLoki sample_config (\<lambda>i. 1700000002000 + i) (\<lambda>i. None)
      (blob [example_line, example_line]))"
  have l: "logArray (blob [example_line, example_line]) = [example_line, example_line]"
    by (simp add: logArray_blob example_line_no_newline)
  have m: "list_all (\<lambda>l. line_match l \<noteq> None) (logArray (blob [example_line, example_line]))"
    by (simp add: l example_captures)
  note w = one_pair_per_record [OF m, of sample_config "\<lambda>i. 1700000002000 + i" "\<lambda>i. None"]
  from w have 1: "fst (sendToLoki sample_config (\<lambda>i. 1700000002000 + i) (\<lambda>i. None)
      (blob [example_line, example_line])) = Inr ()" by (rule conjunct1)
  from w have 2: "map values (posts ?es)
     = [[(toNumber 1700000002000000000, example_json)],
        [(toNumber 1700000002001000000, example_json)]]"
    by (simp add: l example_payload)
  from w have "\<forall>i groups. i < length (logArray (blob [example_line, example_line]))
            \<and> line_match (logArray (blob [example_line, example_line]) ! i) = Some groups \<longrightarrow>
          read_object (jsonLogLine (logArray (blob [example_line, example_line]) ! i))
            = Some (zip field_keys (tl groups))"
    by blast
  from this [rule_format, of 0 "example_line # example_values"]
  have 3: "read_object example_json = Some (zip field_keys example_values)"
    by (simp add: l example_captures example_payload)
  from w have "\<forall>i groups j. i < length (logArray (blob [example_line, example_line]))
            \<and> line_match (logArray (blob [example_line, example_line]) ! i) = Some groups \<and> j < 21
            \<and> list_all plain (groups ! Suc j) \<longrightarrow>
          sublist (CHR 0x22 # field_keys ! j @ [CHR 0x22, CHR '':'', CHR 0x22]
              @ groups ! Suc j @ [CHR 0x22])
            (jsonLogLine (logArray (blob [example_line, example_line]) ! i))"
    by blast
  from this [rule_format, of 0 "example_line # example_values" 8]
  have 4: \<open>sublist ''"elb_status":"200"'' example_json\<close>
    by (simp add: l example_captures example_payload field_keys_def example_values_def plain_def)
  from w have 5: "sorted (timestamps ?es)" by simp
  from 1 2 3 4 5 show ?thesis by blast
qed

section \<open>The callback\<close>

lemma lastUpdated_after_writes:
  "lastUpdated_after lu es = (if writes es = [] then lu else last (writes es))"
  by (induction lu es rule: lastUpdated_after.induct) auto

lemma no_log_data_shape:
  "no_log_data m t = (Inl TypeError, [])
   \<or> (\<exists>text. no_log_data m t = (Inr (), [Log text, SetLastUpdated t]))"
  by (auto simp: no_log_data_def split: option.splits)

lemma sendToLoki_writes: "writes (snd (sendToLoki cfg clk rej text)) = []"
  by (simp add: sendToLoki_def sendLines_writes)

lemma after_fetch_shape:
  assumes "after_fetch cfg w m t logData = (res, es)"
  shows "(res = Inr () \<and> (\<exists>pre. es = pre @ [SetLastUpdated t] \<and> writes pre = []))
     \<or> ((\<exists>e. res = Inl e) \<and> writes es = [])"
proof -
  have A: ?thesis if n: "no_log_data m t = (res, es)"
  proof -
    from no_log_data_shape [of m t] show ?thesis
    proof
      assume "no_log_data m t = (Inl TypeError, [])"
      with n show ?thesis by auto
    next
      assume "\<exists>text. no_log_data m t = (Inr (), [Log text, SetLastUpdated t])"
      then obtain msg where "no_log_data m t = (Inr (), [Log msg, SetLastUpdated t])" ..
      with n have "res = Inr ()" "es = [Log msg] @ [SetLastUpdated t]" "writes [Log msg] = []"
        by auto
      then show ?thesis by blast
    qed
  qed
  show ?thesis
  proof (cases logData)
    case None
    with assms have "no_log_data m t = (res, es)" by (simp add: after_fetch_def)
    then show ?thesis by (rule A)
  next
    case (Some blob_text)
    show ?thesis
    proof (cases "blob_text = []")
      case True
      with Some assms have "no_log_data m t = (res, es)" by (simp add: after_fetch_def)
      then show ?thesis by (rule A)
    next
      case False
      obtain r sent where s: "sendToLoki cfg (clock w) (rejected w) blob_text = (r, sent)"
        by (cases "sendToLoki cfg (clock w) (rejected w) blob_text")
      with sendToLoki_writes [of cfg "clock w" "rejected w" blob_text] have ws: "writes sent = []"
        by simp
      with assms Some False s show ?thesis
        by (cases r) (auto simp: after_fetch_def)
    qed
  qed
qed

lemma fetchLogObject_shape:
  "\<exists>logData logs. fetchLogObject w b k = (logData, GetObject b k # logs) \<and> writes logs = []"
  by (auto simp: fetchLogObject_def split: sum.splits)

text \<open>What a callback can do, by the test of line 162.\<close>

lemma callback_rejected: "\<not> accepted lu r \<Longrightarrow> callback cfg w m lu r = (Inr (), [])"
  by (auto simp: accepted_def callback_def split: option.splits)

lemma callback_accepted:
  assumes "accepted lu r" and "callback cfg w m lu r = (res, es)"
  shows "\<exists>t. eventTime r = Some t \<and> lu < t \<and>
     ((res = Inr () \<and> (\<exists>pre. es = pre @ [SetLastUpdated t] \<and> writes pre = []))
      \<or> ((\<exists>e. res = Inl e) \<and> writes es = []))"
proof -
  from assms(1) obtain t where t: "eventTime r = Some t" "lu < t"
    by (auto simp: accepted_def split: option.splits)
  show ?thesis
  proof (cases "eventName r = ''ObjectCreated:Put''")
    case False
    with t assms(2) show ?thesis by (auto simp: callback_def)
  next
    case True
    show ?thesis
    proof (cases "s3 r")
      case None
      with True t assms(2) show ?thesis by (auto simp: callback_def)
    next
      case (Some bk)
      obtain b k where bk: "bk = (b, k)" by (cases bk)
      from fetchLogObject_shape [of w b k] obtain logData logs
        where f: "fetchLogObject w b k = (logData, GetObject b k # logs)" and l: "writes logs = []"
        by blast
      obtain r2 later where a: "after_fetch cfg w m t logData = (r2, later)"
        by (cases "after_fetch cfg w m t logData")
      from assms(2) True t Some bk f a have res: "res = r2" and es: "es = (GetObject b k # logs) @ later"
        by (auto simp: callback_def)
      from after_fetch_shape [OF a] show ?thesis
      proof
        assume "r2 = Inr () \<and> (\<exists>pre. later = pre @ [SetLastUpdated t] \<and> writes pre = [])"
        then obtain pre where "r2 = Inr ()" "later = pre @ [SetLastUpdated t]" "writes pre = []"
          by blast
        with res es l t have "res = Inr ()" "es = (GetObject b k # logs @ pre) @ [SetLastUpdated t]"
          "writes (GetObject b k # logs @ pre) = []"
          by (simp_all add: writes_append)
        with t show ?thesis by blast
      next
        assume "(\<exists>e. r2 = Inl e) \<and> writes later = []"
        with res es l t show ?thesis by (auto simp: writes_append)
      qed
    qed
  qed
qed

lemma callback_put_trace:
  assumes "accepted lu r" and "eventName r = ''ObjectCreated:Put''"
    and "callback cfg w m lu r = (Inr (), es)"
  shows "\<exists>b k mid t. es = GetObject b k # mid @ [SetLastUpdated t] \<and> writes mid = []
     \<and> eventTime r = Some t"
proof -
  from assms(1) obtain t where t: "eventTime r = Some t" "lu < t"
    by (auto simp: accepted_def split: option.splits)
  from assms t obtain b k where s3: "s3 r = Some (b, k)"
    by (cases "s3 r") (auto simp: callback_def)
  from fetchLogObject_shape [of w b k] obtain logData logs
    where f: "fetchLogObject w b k = (logData, GetObject b k # logs)" and l: "writes logs = []"
    by blast
  obtain r2 later where a: "after_fetch cfg w m t logData = (r2, later)"
    by (cases "after_fetch cfg w m t logData")
  from assms t s3 f a have res: "r2 = Inr ()" and es: "es = (GetObject b k # logs) @ later"
    by (auto simp: callback_def)
  from after_fetch_shape [OF a] res obtain pre
    where "later = pre @ [SetLastUpdated t]" "writes pre = []" by auto
  with es l have "es = GetObject b k # (logs @ pre) @ [SetLastUpdated t]" "writes (logs @ pre) = []"
    by (simp_all add: writes_append)
  with t show ?thesis by blast
qed

lemma callback_reads_in_test:
  assumes "accepted lu r = accepted lu' r"
  shows "callback cfg w m lu' r = callback cfg w m lu r"
  using assms by (auto simp: accepted_def callback_def split: option.splits)

lemma blob_nonempty: "blob (l # ls) \<noteq> []"
  by (simp add: blob_def)

lemma callback_put_example:
  assumes "lu < 1700000001000"
  shows "callback sample_config (world_with (blob [example_line])) m lu put_event =
     (Inr (),
      [GetObject ''alb-logs'' ''a.log.gz'',
       Post (loki_post sample_config 1700000002000 (jsonLogLine example_line)),
       SetLastUpdated 1700000001000])"
proof -
  have m: "line_match example_line \<noteq> None" by (simp add: example_line_match)
  have "sendToLoki sample_config (\<lambda>i. 1700000002000 + i) (\<lambda>i. None) (blob [example_line])
      = (Inr (), [Post (loki_post sample_config 1700000002000 (jsonLogLine example_line))])"
    by (simp add: sendToLoki_def logArray_blob example_line_no_newline sendLines_step [OF m]
        del: sendLines.simps(2))
  with assms show ?thesis
    by (simp add: callback_def put_event_def world_with_def fetchLogObject_def after_fetch_def
        blob_nonempty)
qed

lemma put_event_accepted: "accepted lu put_event \<longleftrightarrow> lu < 1700000001000"
  by (simp add: accepted_def put_event_def)

lemma put_event_time: "eventTime put_event = Some 1700000001000"
  by (simp add: put_event_def)

lemma removed_event_time: "eventTime removed_event = Some 1700000001000"
  by (simp add: removed_event_def)

lemma removed_event_accepted: "accepted lu removed_event \<longleftrightarrow> lu < 1700000001000"
  by (simp add: accepted_def removed_event_def)

text \<open>The part of a callback that runs inside \<^verbatim>\<open>forEach\<close> is the start of the whole callback.\<close>

lemma callback_start_prefix:
  "prefix (snd (callback_start lu r)) (snd (callback cfg w m lu r))"
proof (cases "accepted lu r \<and> eventName r = ''ObjectCreated:Put'' \<and> s3 r \<noteq> None")
  case False
  then show ?thesis
    by (auto simp: accepted_def callback_def callback_start_def split: option.splits)
next
  case True
  then obtain t b k where t: "eventTime r = Some t" "lu < t" and s: "s3 r = Some (b, k)"
    by (auto simp: accepted_def split: option.splits)
  from fetchLogObject_shape [of w b k] obtain logData logs
    where f: "fetchLogObject w b k = (logData, GetObject b k # logs)" by blast
  with True t s show ?thesis
    by (simp add: callback_def callback_start_def split: prod.splits)
qed

text \<open>
  Claim C4, at a failing input: an accepted \<^verbatim>\<open>ObjectCreated:Put\<close> record of a
  notification of the storage service, when the storage has no such object.
  \<open>fetchLogObject\<close> logs the error and returns \<^verbatim>\<open>null\<close>; line 171 then reads
  \<^verbatim>\<open>snsMessage.bucket.name\<close>, which throws a TypeError, so the callback ends in an
  exception and never reaches line 176. Nothing is parsed or sent.
\<close>

theorem failed_fetch_raises_TypeError:
  "callback sample_config world_without (notification [put_event]) 1700000000000 put_event
     = (Inl TypeError, [GetObject ''alb-logs'' ''a.log.gz'', Log ''NoSuchKey''])"
  by (simp add: callback_def put_event_def world_without_def notification_def
      fetchLogObject_def after_fetch_def no_log_data_def)

text \<open>
  Claim C7, as amended. An accepted record whose \<^verbatim>\<open>eventName\<close> is not
  \<^verbatim>\<open>ObjectCreated:Put\<close> causes no fetch, no parse, no submission and no log, and the
  callback returns at once; but line 176 still runs, so \<^verbatim>\<open>lastUpdated\<close> becomes the
  record's time.
\<close>

theorem other_event_only_advances_lastUpdated:
  assumes "eventTime record = Some t" and "t > lastUpdated"
    and "eventName record \<noteq> ''ObjectCreated:Put''"
  shows "callback cfg w snsMessage lastUpdated record = (Inr (), [SetLastUpdated t])
    \<and> callback_start lastUpdated record = (Inr (), [SetLastUpdated t])
    \<and> lastUpdated_after lastUpdated (snd (callback cfg w snsMessage lastUpdated record)) = t"
  using assms by (simp add: callback_def callback_start_def)

theorem other_event_only_advances_lastUpdated_witness:
  "callback sample_config world_without (notification [removed_event]) 1700000000000 removed_event
     = (Inr (), [SetLastUpdated 1700000001000])
   \<and> callback_start 1700000000000 removed_event = (Inr (), [SetLastUpdated 1700000001000])
   \<and> lastUpdated_after 1700000000000
        (snd (callback sample_config world_without (notification [removed_event])
           1700000000000 removed_event))
       = 1700000001000"
  using other_event_only_advances_lastUpdated
    [of removed_event 1700000001000 1700000000000 sample_config world_without
      "notification [removed_event]"]
  by (simp add: removed_event_def)

text \<open>
  The claim as stated fails on a removal record newer than \<^verbatim>\<open>lastUpdated\<close>: it is
  accepted, it is not a creation, and the callback changes \<^verbatim>\<open>lastUpdated\<close>.
\<close>

theorem other_event_changes_lastUpdated_counterexample:
  "accepted 1700000000000 removed_event
   \<and> eventName removed_event \<noteq> ''ObjectCreated:Put''
   \<and> lastUpdated_after 1700000000000
        (snd (callback sample_config world_without (notification [removed_event])
           1700000000000 removed_event))
       \<noteq> 1700000000000"
  by (simp add: accepted_def removed_event_def callback_def)

text \<open>
  Claim C6, as amended. The callback reads \<^verbatim>\<open>lastUpdated\<close> in the test of line 162
  only: two values that give the same answer to the test give the same run. It writes
  \<^verbatim>\<open>lastUpdated\<close> at most once, as its last step and only when it ends without an
  exception. For an accepted \<^verbatim>\<open>ObjectCreated:Put\<close> record that ends without an
  exception the run starts with the request to the storage and ends with the write:
  the write comes after the fetch and after every submission, not before them.
\<close>

theorem lastUpdated_written_last:
  assumes "callback cfg w m lu r = (res, es)"
  shows "(accepted lu' r = accepted lu r \<longrightarrow> callback cfg w m lu' r = (res, es))
   \<and> (writes es = []
      \<or> (res = Inr () \<and> accepted lu r
         \<and> (\<exists>pre t. es = pre @ [SetLastUpdated t] \<and> writes pre = [] \<and> eventTime r = Some t)))
   \<and> (accepted lu r \<and> eventName r = ''ObjectCreated:Put'' \<and> res = Inr () \<longrightarrow>
        (\<exists>b k mid t. es = GetObject b k # mid @ [SetLastUpdated t] \<and> writes mid = []
           \<and> eventTime r = Some t))"
proof (intro conjI impI)
  assume "accepted lu' r = accepted lu r"
  then show "callback cfg w m lu' r = (res, es)"
    using callback_reads_in_test [of lu r lu' cfg w m] assms by simp
next
  show "writes es = []
      \<or> (res = Inr () \<and> accepted lu r
         \<and> (\<exists>pre t. es = pre @ [SetLastUpdated t] \<and> writes pre = [] \<and> eventTime r = Some t))"
  proof (cases "accepted lu r")
    case True
    from callback_accepted [OF True assms] show ?thesis using True by blast
  next
    case False
    from callback_rejected [OF False, of cfg w m] assms show ?thesis by simp
  qed
next
  assume "accepted lu r \<and> eventName r = ''ObjectCreated:Put'' \<and> res = Inr ()"
  with assms callback_put_trace [of lu r cfg w m es]
  show "\<exists>b k mid t. es = GetObject b k # mid @ [SetLastUpdated t] \<and> writes mid = []
           \<and> eventTime r = Some t"
    by simp
qed

theorem lastUpdated_written_last_witness:
  "callback sample_config (world_with (blob [example_line])) (notification [put_event])
     1700000000000 put_event
   = (Inr (),
      [GetObject ''alb-logs'' ''a.log.gz'',
       Post (loki_post sample_config 1700000002000 (jsonLogLine example_line)),
       SetLastUpdated 1700000001000])
   \<and> callback sample_config (world_with (blob [example_line])) (notification [put_event])
     0 put_event
   = (Inr (),
      [GetObject ''alb-logs'' ''a.log.gz'',
       Post (loki_post sample_config 1700000002000 (jsonLogLine example_line)),
       SetLastUpdated 1700000001000])
   \<and> writes
       [GetObject ''alb-logs'' ''a.log.gz'',
        Post (loki_post sample_config 1700000002000 (jsonLogLine example_line))] = []"
proof -
  have first: "callback sample_config (world_with (blob [example_line])) (notification [put_event])
     1700000000000 put_event
   = (Inr (),
      [GetObject ''alb-logs'' ''a.log.gz'',
       Post (loki_post sample_config 1700000002000 (jsonLogLine example_line)),
       SetLastUpdated 1700000001000])"
    by (rule callback_put_example) simp
  from lastUpdated_written_last [OF first, of 0] first show ?thesis
    by (simp add: put_event_accepted)
qed

text \<open>
  The claim as stated fails on an accepted creation record whose object holds one
  line: the write to \<^verbatim>\<open>lastUpdated\<close> is the last effect, after the fetch and the
  submission.
\<close>

theorem lastUpdated_written_after_submit_counterexample:
  "callback sample_config (world_with (blob [example_line])) (notification [put_event])
     1700000000000 put_event
   = (Inr (),
      [GetObject ''alb-logs'' ''a.log.gz'',
       Post (loki_post sample_config 1700000002000 (jsonLogLine example_line)),
       SetLastUpdated 1700000001000])"
  by (rule callback_put_example) simp

lemma seq_max:
  "all_return cfg lu calls \<Longrightarrow>
   lastUpdated_seq cfg lu calls = Max (set (lu # accepted_times cfg lu calls))"
proof (induction calls arbitrary: lu)
  case Nil
  then show ?case by simp
next
  case (Cons c calls)
  obtain w m r where c: "c = (w, m, r)" by (cases c)
  from Cons.prems c obtain es where cb: "callback cfg w m lu r = (Inr (), es)"
    and rest: "all_return cfg (lastUpdated_after lu es) calls"
    by (auto split: prod.splits sum.splits)
  show ?case
  proof (cases "accepted lu r")
    case True
    from callback_accepted [OF True cb] obtain t pre where t: "eventTime r = Some t" "lu < t"
      and es: "es = pre @ [SetLastUpdated t]" "writes pre = []"
      by auto
    from es have after: "lastUpdated_after lu es = t"
      by (simp add: lastUpdated_after_writes writes_append)
    let ?A = "set (accepted_times cfg t calls)"
    have "Max (insert lu (insert t ?A)) = max lu (Max (insert t ?A))"
      by (rule Max_insert) simp_all
    moreover have "t \<le> Max (insert t ?A)" by (rule Max_ge) simp_all
    moreover from this t(2) have "lu \<le> Max (insert t ?A)" by linarith
    ultimately have "Max (insert lu (insert t ?A)) = Max (insert t ?A)"
      by (simp add: max_absorb2)
    with Cons.IH [OF rest] after t c cb show ?thesis by simp
  next
    case False
    from callback_rejected [OF False, of cfg w m] cb have es: "es = []" by simp
    from False have "(case eventTime r of None \<Rightarrow> [] | Some t \<Rightarrow> if lu < t then [t] else []) = []"
      by (auto simp: accepted_def split: option.splits)
    with Cons.IH [OF rest] es c cb show ?thesis by simp
  qed
qed

text \<open>An accepted creation record whose callback returns: where the run starts and ends.\<close>

lemma callback_put_returns:
  assumes "accepted lu r" and "eventName r = ''ObjectCreated:Put''"
    and "callback cfg w m lu r = (Inr (), es)"
  shows "\<exists>b k mid t. s3 r = Some (b, k) \<and> eventTime r = Some t \<and> lu < t
     \<and> es = GetObject b k # mid @ [SetLastUpdated t] \<and> writes mid = []"
proof -
  from assms(1) obtain t where t: "eventTime r = Some t" "lu < t"
    by (auto simp: accepted_def split: option.splits)
  from assms t obtain b k where s3: "s3 r = Some (b, k)"
    by (cases "s3 r") (auto simp: callback_def)
  from fetchLogObject_shape [of w b k] obtain logData logs
    where f: "fetchLogObject w b k = (logData, GetObject b k # logs)" and l: "writes logs = []"
    by blast
  obtain r2 later where a: "after_fetch cfg w m t logData = (r2, later)"
    by (cases "after_fetch cfg w m t logData")
  from assms t s3 f a have res: "r2 = Inr ()" and es: "es = (GetObject b k # logs) @ later"
    by (auto simp: callback_def)
  from after_fetch_shape [OF a] res obtain pre
    where "later = pre @ [SetLastUpdated t]" "writes pre = []" by auto
  with es l have "es = GetObject b k # (logs @ pre) @ [SetLastUpdated t]" "writes (logs @ pre) = []"
    by (simp_all add: writes_append)
  with t s3 show ?thesis by blast
qed

lemma callback_later_put_example:
  assumes "lu < 1700000005000"
  shows "callback sample_config (world_with (blob [example_line])) m lu later_put_event =
     (Inr (),
      [GetObject ''alb-logs'' ''b.log.gz'',
       Post (loki_post sample_config 1700000002000 (jsonLogLine example_line)),
       SetLastUpdated 1700000005000])"
proof -
  have m: "line_match example_line \<noteq> None" by (simp add: example_line_match)
  have "sendToLoki sample_config (\<lambda>i. 1700000002000 + i) (\<lambda>i. None) (blob [example_line])
      = (Inr (), [Post (loki_post sample_config 1700000002000 (jsonLogLine example_line))])"
    by (simp add: sendToLoki_def logArray_blob example_line_no_newline sendLines_step [OF m]
        del: sendLines.simps(2))
  with assms show ?thesis
    by (simp add: callback_def later_put_event_def world_with_def fetchLogObject_def
        after_fetch_def blob_nonempty)
qed

lemma later_put_event_time: "eventTime later_put_event = Some 1700000005000"
  by (simp add: later_put_event_def)

text \<open>
  Claim C5, as amended. A callback does nothing at all exactly when the record is not
  accepted, that is when its time is not strictly greater than \<^verbatim>\<open>lastUpdated\<close> (or
  is not a time). A callback of an accepted record that ends without an exception
  writes \<^verbatim>\<open>lastUpdated\<close> once, as its last effect, and leaves it at the record's
  time, so that the same record is rejected afterwards. For an accepted
  \<^verbatim>\<open>ObjectCreated:Put\<close> record the part of the callback that runs at acceptance only
  issues the request to the storage and writes nothing: the write stands at the end of
  the run, after the fetch and after every submission. Hence, when callbacks run one
  after the other and none ends in an exception, \<^verbatim>\<open>lastUpdated\<close> after the last of
  them is the maximum of its initial value and the accepted times.
\<close>

theorem watermark_of_sequential_callbacks:
  "(callback cfg w m lu r = (Inr (), []) \<longleftrightarrow> \<not> accepted lu r)
   \<and> (accepted lu r \<and> callback cfg w m lu r = (Inr (), es) \<longrightarrow>
        eventTime r = Some (lastUpdated_after lu es) \<and> \<not> accepted (lastUpdated_after lu es) r
        \<and> (\<exists>pre. es = pre @ [SetLastUpdated (lastUpdated_after lu es)] \<and> writes pre = []))
   \<and> (accepted lu r \<and> eventName r = ''ObjectCreated:Put''
        \<and> callback cfg w m lu r = (Inr (), es) \<longrightarrow>
        (\<exists>b k mid. callback_start lu r = (Inr (), [GetObject b k])
           \<and> es = GetObject b k # mid @ [SetLastUpdated (lastUpdated_after lu es)]
           \<and> writes mid = [] \<and> posts mid = posts es))
   \<and> (all_return cfg lu calls \<longrightarrow>
        lastUpdated_seq cfg lu calls = Max (set (lu # accepted_times cfg lu calls)))"
proof (intro conjI impI)
  show "callback cfg w m lu r = (Inr (), []) \<longleftrightarrow> \<not> accepted lu r"
  proof
    assume cb: "callback cfg w m lu r = (Inr (), [])"
    show "\<not> accepted lu r"
    proof
      assume "accepted lu r"
      from callback_accepted [OF this cb] show False by auto
    qed
  next
    assume "\<not> accepted lu r"
    then show "callback cfg w m lu r = (Inr (), [])" by (rule callback_rejected)
  qed
next
  assume a: "accepted lu r \<and> callback cfg w m lu r = (Inr (), es)"
  then have acc: "accepted lu r" and cb: "callback cfg w m lu r = (Inr (), es)" by auto
  from callback_accepted [OF acc cb] obtain t pre where t: "eventTime r = Some t" "lu < t"
    and es: "es = pre @ [SetLastUpdated t]" "writes pre = []"
    by auto
  from es have after: "lastUpdated_after lu es = t"
    by (simp add: lastUpdated_after_writes writes_append)
  with t show "eventTime r = Some (lastUpdated_after lu es)" by simp
  from after t show "\<not> accepted (lastUpdated_after lu es) r" by (simp add: accepted_def)
  show "\<exists>pre. es = pre @ [SetLastUpdated (lastUpdated_after lu es)] \<and> writes pre = []"
    unfolding after by (rule exI [of _ pre]) (simp add: es)
next
  assume a: "accepted lu r \<and> eventName r = ''ObjectCreated:Put''
      \<and> callback cfg w m lu r = (Inr (), es)"
  then have acc: "accepted lu r" and put: "eventName r = ''ObjectCreated:Put''"
    and cb: "callback cfg w m lu r = (Inr (), es)" by auto
  from callback_put_returns [OF acc put cb] obtain b k mid t
    where s3: "s3 r = Some (b, k)" and t: "eventTime r = Some t" "lu < t"
      and es: "es = GetObject b k # mid @ [SetLastUpdated t]" and mid: "writes mid = []"
    by blast
  from es mid have after: "lastUpdated_after lu es = t"
    by (simp add: lastUpdated_after_writes writes_append)
  have start: "callback_start lu r = (Inr (), [GetObject b k])"
    using s3 t put by (simp add: callback_start_def)
  have p: "posts mid = posts (GetObject b k # mid @ [SetLastUpdated t])"
    by (simp add: posts_append)
  show "\<exists>b k mid. callback_start lu r = (Inr (), [GetObject b k])
           \<and> es = GetObject b k # mid @ [SetLastUpdated (lastUpdated_after lu es)]
           \<and> writes mid = [] \<and> posts mid = posts es"
    unfolding after
    by (rule exI [of _ b], rule exI [of _ k], rule exI [of _ mid]) (simp add: start es mid p)
next
  assume "all_return cfg lu calls"
  then show "lastUpdated_seq cfg lu calls = Max (set (lu # accepted_times cfg lu calls))"
    by (rule seq_max)
qed

theorem watermark_of_sequential_callbacks_witness:
  "accepted 1700000000000 put_event
   \<and> callback_start 1700000000000 put_event = (Inr (), [GetObject ''alb-logs'' ''a.log.gz''])
   \<and> callback sample_config (world_with (blob [example_line])) (notification [put_event])
        1700000000000 put_event
      = (Inr (),
         [GetObject ''alb-logs'' ''a.log.gz'',
          Post (loki_post sample_config 1700000002000 (jsonLogLine example_line)),
          SetLastUpdated 1700000001000])
   \<and> \<not> accepted 1700000001000 put_event
   \<and> callback sample_config (world_with (blob [example_line])) (notification [put_event])
        1700000001000 put_event
      = (Inr (), [])
   \<and> all_return sample_config 1700000000000
        [(world_with (blob [example_line]), notification [put_event], put_event),
         (world_with (blob [example_line]), notification [put_event], put_event),
         (world_with (blob [example_line]), notification [later_put_event], later_put_event),
         (world_without, notification [removed_event], removed_event)]
   \<and> accepted_times sample_config 1700000000000
        [(world_with (blob [example_line]), notification [put_event], put_event),
         (world_with (blob [example_line]), notification [put_event], put_event),
         (world_with (blob [example_line]), notification [later_put_event], later_put_event),
         (world_without, notification [removed_event], removed_event)]
      = [1700000001000, 1700000005000]
   \<and> lastUpdated_seq sample_config 1700000000000
        [(world_with (blob [example_line]), notification [put_event], put_event),
         (world_with (blob [example_line]), notification [put_event], put_event),
         (world_with (blob [example_line]), notification [later_put_event], later_put_event),
         (world_without, notification [removed_event], removed_event)]
      = 1700000005000"
proof -
  let ?W = "world_with (blob [example_line])" and ?M = "notification [put_event]"
  let ?calls = "[(?W, ?M, put_event), (?W, ?M, put_event),
     (?W, notification [later_put_event], later_put_event),
     (world_without, notification [removed_event], removed_event)]"
  let ?first = "[GetObject ''alb-logs'' ''a.log.gz'',
       Post (loki_post sample_config 1700000002000 (jsonLogLine example_line)),
       SetLastUpdated 1700000001000]"
  have acc: "accepted 1700000000000 put_event" by (simp add: put_event_accepted)
  have put: "eventName put_event = ''ObjectCreated:Put''" by (simp add: put_event_def)
  have first: "callback sample_config ?W ?M 1700000000000 put_event = (Inr (), ?first)"
    by (rule callback_put_example) simp
  note inst = watermark_of_sequential_callbacks
    [of sample_config ?W ?M 1700000000000 put_event ?first ?calls]
  note at_acceptance = inst [THEN conjunct2, THEN conjunct2, THEN conjunct1, THEN mp,
      OF conjI [OF acc conjI [OF put first]]]
  then obtain b k mid
    where cs: "callback_start 1700000000000 put_event = (Inr (), [GetObject b k])"
      and eq: "?first
        = GetObject b k # mid @ [SetLastUpdated (lastUpdated_after 1700000000000 ?first)]"
    by (elim exE conjE)
  from eq have "b = ''alb-logs''" and "k = ''a.log.gz''" by simp_all
  with cs have start: "callback_start 1700000000000 put_event
      = (Inr (), [GetObject ''alb-logs'' ''a.log.gz''])"
    by simp
  have second: "callback sample_config ?W ?M 1700000001000 put_event = (Inr (), [])"
    using watermark_of_sequential_callbacks [of sample_config ?W ?M 1700000001000 put_event]
    by (simp add: put_event_accepted)
  have third: "callback sample_config ?W (notification [later_put_event]) 1700000001000
      later_put_event
    = (Inr (),
      [GetObject ''alb-logs'' ''b.log.gz'',
       Post (loki_post sample_config 1700000002000 (jsonLogLine example_line)),
       SetLastUpdated 1700000005000])"
    by (rule callback_later_put_example) simp
  have fourth: "callback sample_config world_without (notification [removed_event])
      1700000005000 removed_event = (Inr (), [])"
    by (rule callback_rejected) (simp add: removed_event_accepted)
  have all: "all_return sample_config 1700000000000 ?calls"
    by (simp add: first second third fourth)
  have times: "accepted_times sample_config 1700000000000 ?calls
      = [1700000001000, 1700000005000]"
    by (simp add: first second third fourth put_event_time removed_event_time
        later_put_event_time)
  note seq = inst [THEN conjunct2, THEN conjunct2, THEN conjunct2, THEN mp, OF all]
  have "lastUpdated_seq sample_config 1700000000000 ?calls = 1700000005000"
    unfolding seq times by simp
  moreover have "\<not> accepted 1700000001000 put_event" by (simp add: put_event_accepted)
  ultimately show ?thesis using acc start first second all times by blast
qed

section \<open>The handler\<close>

text \<open>A body that parses twice is acknowledged: the last effect of the handler is the 200.\<close>

lemma handler_acknowledges:
  "handler lu (Body (Message m)) = (Inr (), forEach_start lu (Records m) @ [SendStatus 200])"
  by (simp add: handler_def)

text \<open>
  Claim C3, at a failing input: a request whose body is not JSON, or whose
  \<^verbatim>\<open>Message\<close> is not. \<^verbatim>\<open>JSON.parse\<close> throws in line 156 (or 157), the promise of the
  handler is rejected and line 181 is never reached: no status is sent.
\<close>

theorem unparseable_body_gets_no_response:
  "handler lastUpdated BadBody = (Inl SyntaxError, [])
   \<and> handler lastUpdated (Body BadMessage) = (Inl SyntaxError, [])"
  by (simp add: handler_def)

text \<open>
  Claim C5 as stated fails on a notification that holds the same creation record
  twice: the record is newer than \<^verbatim>\<open>lastUpdated\<close>, and both callbacks issue the request
  to the storage before the handler answers, because the first one has not written
  \<^verbatim>\<open>lastUpdated\<close> when the second one tests it.
\<close>

theorem same_event_accepted_twice_counterexample:
  "accepted 1700000000000 put_event
   \<and> handler 1700000000000 (Body (Message (notification [put_event, put_event])))
      = (Inr (),
         [GetObject ''alb-logs'' ''a.log.gz'', GetObject ''alb-logs'' ''a.log.gz'',
          SendStatus 200])"
proof -
  have "callback_start 1700000000000 put_event = (Inr (), [GetObject ''alb-logs'' ''a.log.gz''])"
    by (simp add: callback_start_def put_event_def)
  then show ?thesis
    by (simp add: put_event_accepted handler_def notification_def)
qed

section \<open>The top level\<close>

text \<open>
  Claim C10, at the failing input: any start of the program in which no binding named
  \<^verbatim>\<open>logs\<close> is in scope. Line 77 throws a ReferenceError on its first identifier, the
  module stops there, and the listener of line 184 never starts.
\<close>

theorem top_level_throws_ReferenceError:
  "scope R ''logs'' = None \<Longrightarrow> top_level R = (Inl ReferenceError, [])"
  by (simp add: top_level_def line77_def)

theorem top_level_throws_ReferenceError_witness:
  "top_level module_realm = (Inl ReferenceError, [])"
  using top_level_throws_ReferenceError [of module_realm]
  by (simp add: module_realm_def module_bindings_def)

end
